theory Spec2Isabelle
  imports Main "HOL-Library.Log_Nat" "HOL-Library.Word"
begin

section \<open>Go's floating-point numbers\<close>

text \<open>
  The program computes on \<^verbatim>\<open>float32\<close> and \<^verbatim>\<open>float64\<close>. Both are modelled by one
  datatype of IEEE 754 values: a finite value is a sign (\<open>True\<close> for negative) and a
  rational magnitude, so that both zeros exist; the two infinities; one NaN (payloads are
  not observable in the program). A format is its precision in bits, the exponent of its
  smallest subnormal and the exponent of its largest binade. Every arithmetic operation
  computes the exact rational result and rounds it to nearest, ties to even, as the
  \<^verbatim>\<open>gc\<close> compiler does on amd64, one rounding per operation (no fused multiply-add).
\<close>

datatype fp = Finite bool rat | Infinity bool | NaN

record fmt =
  prec :: nat
  qmin :: int
  emax :: int

definition F32 :: fmt where
  "F32 = \<lparr>prec = 24, qmin = - 149, emax = 127\<rparr>"

definition F64 :: fmt where
  "F64 = \<lparr>prec = 53, qmin = - 1074, emax = 1023\<rparr>"

text \<open>\<open>ilog2 m\<close> is the exponent \<open>e\<close> with \<open>2^e \<le> m < 2^(e+1)\<close>, for \<open>m > 0\<close>.\<close>

definition ilog2 :: "rat \<Rightarrow> int" where
  "ilog2 m = (if 1 \<le> m then bitlen \<lfloor>m\<rfloor> - 1 else - bitlen (\<lceil>1 / m\<rceil> - 1))"

text \<open>Rounding a non-negative rational to the nearest integer, ties to the even one.\<close>

definition rne :: "rat \<Rightarrow> int" where
  "rne x = (let n = \<lfloor>x\<rfloor>; f = x - of_int n in
             if f < 1 / 2 then n else if 1 / 2 < f then n + 1
             else if even n then n else n + 1)"

text \<open>
  Rounding the magnitude \<open>m \<ge> 0\<close> with sign \<open>s\<close> to the format: the quantum is
  \<open>2^q\<close> with \<open>q\<close> the exponent of \<open>m\<close> less the precision, but not below the
  subnormal quantum; a result that reaches \<open>2^(emax+1)\<close> overflows to infinity.
\<close>

definition quantum :: "fmt \<Rightarrow> rat \<Rightarrow> int" where
  "quantum F m = max (ilog2 m - (int (prec F) - 1)) (qmin F)"

definition rmag :: "fmt \<Rightarrow> rat \<Rightarrow> rat" where
  "rmag F m = of_int (rne (m / 2 powi quantum F m)) * 2 powi quantum F m"

definition rnd :: "fmt \<Rightarrow> bool \<Rightarrow> rat \<Rightarrow> fp" where
  "rnd F s m =
     (if m = 0 then Finite s 0
      else if 2 powi (emax F + 1) \<le> rmag F m then Infinity s
      else Finite s (rmag F m))"

definition sval :: "bool \<Rightarrow> rat \<Rightarrow> rat" where
  "sval s m = (if s then - m else m)"

text \<open>Rounding a signed rational; an exact zero gets the sign \<open>z\<close>.\<close>

definition rnd_signed :: "fmt \<Rightarrow> bool \<Rightarrow> rat \<Rightarrow> fp" where
  "rnd_signed F z r = (if r = 0 then Finite z 0 else rnd F (r < 0) \<bar>r\<bar>)"

text \<open>A value belongs to a format when rounding to the format leaves it unchanged.\<close>

fun is_fp :: "fmt \<Rightarrow> fp \<Rightarrow> bool" where
  "is_fp F (Finite s m) = (0 \<le> m \<and> rnd F s m = Finite s m)"
| "is_fp F _ = True"

text \<open>Conversion of a Go integer: \<^verbatim>\<open>float32(n)\<close>, \<^verbatim>\<open>float64(n)\<close>.\<close>

definition f_of_int :: "fmt \<Rightarrow> int \<Rightarrow> fp" where
  "f_of_int F n = rnd F (n < 0) (of_int \<bar>n\<bar>)"

text \<open>Conversion between the formats, and of an untyped constant to a format.\<close>

fun f_conv :: "fmt \<Rightarrow> fp \<Rightarrow> fp" where
  "f_conv F (Finite s m) = rnd F s m"
| "f_conv F x = x"

definition f_const :: "fmt \<Rightarrow> rat \<Rightarrow> fp" where
  "f_const F r = rnd_signed F False r"

fun fneg :: "fp \<Rightarrow> fp" where
  "fneg (Finite s m) = Finite (\<not> s) m"
| "fneg (Infinity s) = Infinity (\<not> s)"
| "fneg NaN = NaN"

fun fadd :: "fmt \<Rightarrow> fp \<Rightarrow> fp \<Rightarrow> fp" where
  "fadd F (Finite s m) (Finite t n) = rnd_signed F (s \<and> t) (sval s m + sval t n)"
| "fadd F (Finite s m) (Infinity t) = Infinity t"
| "fadd F (Infinity s) (Finite t n) = Infinity s"
| "fadd F (Infinity s) (Infinity t) = (if s = t then Infinity s else NaN)"
| "fadd F _ _ = NaN"

definition fsub :: "fmt \<Rightarrow> fp \<Rightarrow> fp \<Rightarrow> fp" where
  "fsub F a b = fadd F a (fneg b)"

fun fmul :: "fmt \<Rightarrow> fp \<Rightarrow> fp \<Rightarrow> fp" where
  "fmul F (Finite s m) (Finite t n) = rnd F (s \<noteq> t) (m * n)"
| "fmul F (Finite s m) (Infinity t) = (if m = 0 then NaN else Infinity (s \<noteq> t))"
| "fmul F (Infinity s) (Finite t n) = (if n = 0 then NaN else Infinity (s \<noteq> t))"
| "fmul F (Infinity s) (Infinity t) = Infinity (s \<noteq> t)"
| "fmul F _ _ = NaN"

fun fdiv :: "fmt \<Rightarrow> fp \<Rightarrow> fp \<Rightarrow> fp" where
  "fdiv F (Finite s m) (Finite t n) =
     (if n = 0 then (if m = 0 then NaN else Infinity (s \<noteq> t))
      else rnd F (s \<noteq> t) (m / n))"
| "fdiv F (Finite s m) (Infinity t) = Finite (s \<noteq> t) 0"
| "fdiv F (Infinity s) (Finite t n) = Infinity (s \<noteq> t)"
| "fdiv F _ _ = NaN"

text \<open>The comparisons \<^verbatim>\<open><\<close> and \<^verbatim>\<open><=\<close>: false whenever an operand is NaN.\<close>

fun flt :: "fp \<Rightarrow> fp \<Rightarrow> bool" where
  "flt (Finite s m) (Finite t n) = (sval s m < sval t n)"
| "flt (Finite s m) (Infinity t) = (\<not> t)"
| "flt (Infinity s) (Finite t n) = s"
| "flt (Infinity s) (Infinity t) = (s \<and> \<not> t)"
| "flt _ _ = False"

fun fle :: "fp \<Rightarrow> fp \<Rightarrow> bool" where
  "fle (Finite s m) (Finite t n) = (sval s m \<le> sval t n)"
| "fle (Finite s m) (Infinity t) = (\<not> t)"
| "fle (Infinity s) (Finite t n) = s"
| "fle (Infinity s) (Infinity t) = (s \<or> \<not> t)"
| "fle _ _ = False"

text \<open>\<^verbatim>\<open>math.Ceil\<close>: the ceiling of a float is a float of the same format and sign.\<close>

fun fceil :: "fp \<Rightarrow> fp" where
  "fceil (Finite s m) = Finite s (of_int \<bar>\<lceil>sval s m\<rceil>\<bar>)"
| "fceil x = x"

text \<open>
  \<^verbatim>\<open>math.Sqrt\<close> is correctly rounded. \<open>isqrt n\<close> is the integer square root, found bit
  by bit from above; the rounded root of \<open>m > 0\<close> has the quantum \<open>2^q\<close> of the exact
  root, and its significand is the integer nearest to \<open>sqrt (m / 4^q)\<close>, found by
  comparing \<open>m / 4^q\<close> with the square of the midpoint.
\<close>

primrec isqrt_bits :: "nat \<Rightarrow> int \<Rightarrow> int \<Rightarrow> int" where
  "isqrt_bits 0 n a = a"
| "isqrt_bits (Suc b) n a =
     isqrt_bits b n (if (a + 2 ^ b) * (a + 2 ^ b) \<le> n then a + 2 ^ b else a)"

definition isqrt :: "int \<Rightarrow> int" where
  "isqrt n = isqrt_bits (nat (bitlen n)) n 0"

definition rnd_sqrt :: "fmt \<Rightarrow> rat \<Rightarrow> fp" where
  "rnd_sqrt F m =
     (let q = max (ilog2 m div 2 - (int (prec F) - 1)) (qmin F);
          y = m / 2 powi (2 * q);
          k = isqrt \<lfloor>y\<rfloor>;
          h = (of_int k + 1 / 2) * (of_int k + 1 / 2);
          n = (if y < h then k else if h < y then k + 1
               else if even k then k else k + 1);
          r = of_int n * 2 powi q
      in if 2 powi (emax F + 1) \<le> r then Infinity False else Finite False r)"

fun fsqrt :: "fmt \<Rightarrow> fp \<Rightarrow> fp" where
  "fsqrt F (Finite s m) =
     (if m = 0 then Finite s 0 else if s then NaN else rnd_sqrt F m)"
| "fsqrt F (Infinity s) = (if s then NaN else Infinity False)"
| "fsqrt F NaN = NaN"

section \<open>Go values used by the program\<close>

text \<open>
  A Go \<^verbatim>\<open>int\<close> is modelled by a HOL integer; where the program subtracts two of them
  (\<^verbatim>\<open>Rectangle.Dx\<close>, \<^verbatim>\<open>Rectangle.Dy\<close>) the 64-bit wrap-around is written out.
  A \<^verbatim>\<open>uint32\<close> colour sample is a 32-bit word. A run-time panic (an index out of
  range, a negative length given to \<^verbatim>\<open>make\<close>) is the \<open>Inl\<close> of a result; memory is
  unbounded, so \<^verbatim>\<open>make\<close> and \<^verbatim>\<open>append\<close> never fail for lack of it.
\<close>

definition wrap64 :: "int \<Rightarrow> int" where
  "wrap64 n = sint (word_of_int n :: 64 word)"

record Rectangle =
  MinX :: int
  MinY :: int
  MaxX :: int
  MaxY :: int

definition Dx :: "Rectangle \<Rightarrow> int" where
  "Dx r = wrap64 (MaxX r - MinX r)"

definition Dy :: "Rectangle \<Rightarrow> int" where
  "Dy r = wrap64 (MaxY r - MinY r)"

text \<open>
  An \<^verbatim>\<open>image.Image\<close> is its bounds and its pixel access; \<open>At img x y\<close> is the result of
  \<^verbatim>\<open>img.At(x, y).RGBA()\<close>, the four samples red, green, blue, alpha.
\<close>

type_synonym rgba = "32 word \<times> 32 word \<times> 32 word \<times> 32 word"

record Image =
  Bounds :: Rectangle
  At :: "int \<Rightarrow> int \<Rightarrow> rgba"

text \<open>
  The values handed to \<^verbatim>\<open>tf.NewTensor\<close> are nested slices and arrays of
  \<^verbatim>\<open>float32\<close>. \<^verbatim>\<open>tf.NewTensor\<close> belongs to the TensorFlow binding; it is modelled
  as wrapping the nested value it is given, whose nesting depth is the tensor's rank.
\<close>

datatype goval = Scalar fp | Arr "goval list"

datatype tensor = Tensor goval

datatype error = IndexOutOfRange | MakeSliceLenOutOfRange

definition NewTensor :: "goval \<Rightarrow> error + tensor" where
  "NewTensor v = Inr (Tensor v)"

fun shape_of :: "goval \<Rightarrow> nat list" where
  "shape_of (Scalar x) = []"
| "shape_of (Arr []) = [0]"
| "shape_of (Arr (v # vs)) = Suc (length vs) # shape_of v"

type_synonym box = "fp \<times> fp \<times> fp \<times> fp"

definition box_val :: "box \<Rightarrow> goval" where
  "box_val b = (case b of (y1, x1, y2, x2) \<Rightarrow> Arr [Scalar y1, Scalar x1, Scalar y2, Scalar x2])"

definition anchors_val :: "box list list \<Rightarrow> goval" where
  "anchors_val a = Arr (map (\<lambda>bs. Arr (map box_val bs)) a)"

section \<open>mask.go\<close>

subsection \<open>Pixel conversion and the image tensor\<close>

definition convert :: "32 word \<Rightarrow> fp" where
  "convert v =
     fdiv F32 (fsub F32 (f_of_int F32 (uint (drop_bit 8 v))) (f_const F32 (255 / 2)))
       (f_const F32 (255 / 2))"

text \<open>
  \<^verbatim>\<open>imageToTensor\<close> appends one row of \<^verbatim>\<open>imageWidth\<close> pixels per line of the image
  (\<^verbatim>\<open>make\<close> panics on a negative length) and then fills pixel \<open>(j, i)\<close> from
  \<^verbatim>\<open>img.At(i, j)\<close>.
\<close>

definition pixel_val :: "Image \<Rightarrow> int \<Rightarrow> int \<Rightarrow> goval" where
  "pixel_val img i j =
     (case At img i j of (r, g, b, a) \<Rightarrow>
        Arr [Scalar (convert r), Scalar (convert g), Scalar (convert b)])"

definition imageToTensor :: "Image \<Rightarrow> error + tensor" where
  "imageToTensor img =
     (let imageHeight = Dy (Bounds img); imageWidth = Dx (Bounds img) in
      if 0 < imageHeight \<and> imageWidth < 0 then Inl MakeSliceLenOutOfRange
      else NewTensor (Arr [Arr (map (\<lambda>j. Arr (map (\<lambda>i. pixel_val img (int i) (int j))
                                             [0 ..< nat imageWidth]))
                              [0 ..< nat imageHeight])]))"

subsection \<open>The metadata vector\<close>

definition composeImageMeta ::
  "int \<Rightarrow> Rectangle \<Rightarrow> Rectangle \<Rightarrow> Rectangle \<Rightarrow> fp \<Rightarrow> int \<Rightarrow> error + tensor" where
  "composeImageMeta imageID originalBounds resizedBounds window scale numClasses =
     (let meta0 = [] @ [f_of_int F32 imageID];
          meta1 = meta0 @ [f_of_int F32 (Dy originalBounds), f_of_int F32 (Dx originalBounds),
                           f_const F32 3];
          meta2 = meta1 @ [f_of_int F32 (Dy resizedBounds), f_of_int F32 (Dx resizedBounds),
                           f_const F32 3];
          meta3 = meta2 @ [f_of_int F32 (MinY window), f_of_int F32 (MinX window),
                           f_of_int F32 (MaxY window), f_of_int F32 (MaxX window)];
          meta4 = meta3 @ [scale]
      in if numClasses < 0 then Inl MakeSliceLenOutOfRange
         else NewTensor (Arr [Arr (map Scalar
                (meta4 @ replicate (nat numClasses) (Finite False 0)))]))"

subsection \<open>Anchor generation\<close>

text \<open>
  The two loops of \<^verbatim>\<open>generateAnchors\<close> count in \<^verbatim>\<open>float32\<close>, so they are not
  structurally recursive and may run forever: they are partial functions, and \<open>None\<close> is
  a run that does not return. The innermost loop over \<open>k = 0, 1, 2\<close> appends three boxes.
\<close>

definition cell_boxes :: "fp list \<Rightarrow> fp list \<Rightarrow> int \<Rightarrow> fp \<Rightarrow> fp \<Rightarrow> box list" where
  "cell_boxes heights widths featureStride j i =
     map (\<lambda>k. (fsub F32 (fmul F32 j (f_of_int F32 featureStride))
                  (fmul F32 (f_const F32 (1 / 2)) (heights ! k)),
                fsub F32 (fmul F32 i (f_of_int F32 featureStride))
                  (fmul F32 (f_const F32 (1 / 2)) (widths ! k)),
                fadd F32 (fmul F32 j (f_of_int F32 featureStride))
                  (fmul F32 (f_const F32 (1 / 2)) (heights ! k)),
                fadd F32 (fmul F32 i (f_of_int F32 featureStride))
                  (fmul F32 (f_const F32 (1 / 2)) (widths ! k))))
       [0 ..< 3]"

partial_function (option) cols_loop ::
  "fp list \<Rightarrow> fp list \<Rightarrow> fp \<Rightarrow> int \<Rightarrow> int \<Rightarrow> fp \<Rightarrow> fp \<Rightarrow> box list \<Rightarrow> box list option" where
  "cols_loop heights widths shape1 featureStride anchorStride j i boxes =
     (if flt i shape1
      then cols_loop heights widths shape1 featureStride anchorStride j
             (fadd F32 i (f_of_int F32 anchorStride))
             (boxes @ cell_boxes heights widths featureStride j i)
      else Some boxes)"

partial_function (option) rows_loop ::
  "fp list \<Rightarrow> fp list \<Rightarrow> fp \<Rightarrow> fp \<Rightarrow> int \<Rightarrow> int \<Rightarrow> fp \<Rightarrow> box list \<Rightarrow> box list option" where
  "rows_loop heights widths shape0 shape1 featureStride anchorStride j boxes =
     (if flt j shape0
      then Option.bind
             (cols_loop heights widths shape1 featureStride anchorStride j (Finite False 0) boxes)
             (\<lambda>boxes'. rows_loop heights widths shape0 shape1 featureStride anchorStride
                          (fadd F32 j (f_of_int F32 anchorStride)) boxes')
      else Some boxes)"

text \<open>
  \<^verbatim>\<open>generateAnchors\<close> reads \<^verbatim>\<open>ratios[0..2]\<close> before the loops, \<^verbatim>\<open>shape[0]\<close> in the
  first test of the outer loop, and \<^verbatim>\<open>shape[1]\<close> in the first test of the inner loop,
  which is reached when the outer test has passed; an index out of range panics.
\<close>

definition anchor_heights :: "int \<Rightarrow> fp list \<Rightarrow> fp list" where
  "anchor_heights scales ratios =
     map (\<lambda>k. fdiv F32 (f_of_int F32 scales)
                (f_conv F32 (fsqrt F64 (f_conv F64 (ratios ! k))))) [0 ..< 3]"

definition anchor_widths :: "int \<Rightarrow> fp list \<Rightarrow> fp list" where
  "anchor_widths scales ratios =
     map (\<lambda>k. fmul F32 (f_of_int F32 scales)
                (f_conv F32 (fsqrt F64 (f_conv F64 (ratios ! k))))) [0 ..< 3]"

definition generateAnchors ::
  "int \<Rightarrow> fp list \<Rightarrow> fp list \<Rightarrow> int \<Rightarrow> int \<Rightarrow> (error + box list) option" where
  "generateAnchors scales ratios shape featureStride anchorStride =
     (if length ratios < 3 then Some (Inl IndexOutOfRange)
      else
        let heights = anchor_heights scales ratios;
            widths = anchor_widths scales ratios
        in if length shape < 1 then Some (Inl IndexOutOfRange)
           else if \<not> flt (Finite False 0) (shape ! 0) then Some (Inr [])
           else if length shape < 2 then Some (Inl IndexOutOfRange)
           else map_option Inr
                  (rows_loop heights widths (shape ! 0) (shape ! 1) featureStride anchorStride
                     (Finite False 0) []))"

text \<open>
  \<^verbatim>\<open>generatePyramidAnchors\<close> ranges over the indices of \<^verbatim>\<open>scales\<close> and appends the
  anchors of each level; \<^verbatim>\<open>featureShapes[i]\<close> and \<^verbatim>\<open>featureStrides[i]\<close> panic when
  out of range. The result is the array \<^verbatim>\<open>[1][][4]float32\<close>.
\<close>

fun pyramid_loop ::
  "int list \<Rightarrow> fp list \<Rightarrow> fp list list \<Rightarrow> int list \<Rightarrow> int \<Rightarrow> nat list \<Rightarrow> box list \<Rightarrow>
     (error + box list) option" where
  "pyramid_loop scales ratios featureShapes featureStrides anchorStride [] anchors =
     Some (Inr anchors)"
| "pyramid_loop scales ratios featureShapes featureStrides anchorStride (i # is) anchors =
     (if length featureShapes \<le> i \<or> length featureStrides \<le> i then Some (Inl IndexOutOfRange)
      else case generateAnchors (scales ! i) ratios (featureShapes ! i) (featureStrides ! i)
                  anchorStride of
             None \<Rightarrow> None
           | Some (Inl e) \<Rightarrow> Some (Inl e)
           | Some (Inr bs) \<Rightarrow>
               pyramid_loop scales ratios featureShapes featureStrides anchorStride is
                 (anchors @ bs))"

definition generatePyramidAnchors ::
  "int list \<Rightarrow> fp list \<Rightarrow> fp list list \<Rightarrow> int list \<Rightarrow> int \<Rightarrow> (error + box list list) option" where
  "generatePyramidAnchors scales ratios featureShapes featureStrides anchorStride =
     map_option (map_sum id (\<lambda>anchors. [anchors]))
       (pyramid_loop scales ratios featureShapes featureStrides anchorStride
          [0 ..< length scales] [])"

definition computeBackboneShapes :: "Rectangle \<Rightarrow> int list \<Rightarrow> fp list list" where
  "computeBackboneShapes imageBounds backboneStrides =
     map (\<lambda>s. [f_conv F32 (fceil (fdiv F64 (f_of_int F64 (Dy imageBounds)) (f_of_int F64 s))),
               f_conv F32 (fceil (fdiv F64 (f_of_int F64 (Dx imageBounds)) (f_of_int F64 s)))])
       backboneStrides"

definition getAnchors :: "Rectangle \<Rightarrow> (error + box list list) option" where
  "getAnchors imageBounds =
     (let backboneStrides = [4, 8, 16, 32, 64];
          backboneShapes = computeBackboneShapes imageBounds backboneStrides;
          anchorScales = [32, 64, 128, 256, 512];
          anchorRatios = [f_const F32 (1 / 2), f_const F32 1, f_const F32 2];
          anchorStride = 1
      in generatePyramidAnchors anchorScales anchorRatios backboneShapes backboneStrides
           anchorStride)"

subsection \<open>The inputs of the model\<close>

text \<open>
  \<^verbatim>\<open>imageutils.Scaled\<close> is not part of the sources at hand: \<^verbatim>\<open>makeInputs\<close> takes it as
  the parameter \<open>Scaled\<close>. The third tensor it returns is built from the four corners of
  the resized image's bounds.
\<close>

definition makeInputs ::
  "(Image \<Rightarrow> int \<Rightarrow> int \<Rightarrow> Image) \<Rightarrow> Image \<Rightarrow> error + (tensor \<times> tensor \<times> tensor)" where
  "makeInputs Scaled img =
     (let resized = Scaled img 800 800 in
      case imageToTensor resized of
        Inl err \<Rightarrow> Inl err
      | Inr imgTensor \<Rightarrow>
          (case composeImageMeta 0 (Bounds img) (Bounds resized) (Bounds resized)
                  (fdiv F32 (f_of_int F32 (Dy (Bounds resized))) (f_of_int F32 (Dy (Bounds img))))
                  81 of
             Inl err \<Rightarrow> Inl err
           | Inr meta \<Rightarrow>
               (case NewTensor (Arr [Arr (map Scalar
                        [f_of_int F32 (MinY (Bounds resized)), f_of_int F32 (MinX (Bounds resized)),
                         f_of_int F32 (MaxY (Bounds resized)), f_of_int F32 (MaxX (Bounds resized))])])
                of
                  Inl err \<Rightarrow> Inl err
                | Inr window \<Rightarrow> Inr (imgTensor, meta, window))))"

section \<open>folder.go\<close>

definition convertTF :: "32 word \<Rightarrow> fp" where
  "convertTF v =
     fdiv F32 (fsub F32 (f_of_int F32 (uint (drop_bit 8 v))) (f_const F32 (255 / 2)))
       (f_const F32 (255 / 2))"

definition convertCaffe :: "32 word \<Rightarrow> fp" where
  "convertCaffe v = f_of_int F32 (uint (drop_bit 8 v))"

definition caffe_pixel :: "Image \<Rightarrow> int \<Rightarrow> int \<Rightarrow> fp list" where
  "caffe_pixel img i j =
     (case At img i j of (r, g, b, a) \<Rightarrow>
        [fsub F32 (convertCaffe b) (f_const F32 (103939 / 1000)),
         fsub F32 (convertCaffe g) (f_const F32 (116779 / 1000)),
         fsub F32 (convertCaffe r) (f_const F32 (12368 / 100))])"

definition imageToTensorCaffe :: "Image \<Rightarrow> error + tensor" where
  "imageToTensorCaffe img =
     NewTensor (Arr [Arr (map (\<lambda>i. Arr (map (\<lambda>j. Arr (map Scalar (caffe_pixel img (int i) (int j))))
                                          [0 ..< 224]))
                       [0 ..< 224])])"

section \<open>The anchor grid, by cell\<close>

text \<open>
  The anchors of one level listed cell by cell: rows in ascending order, within a row the
  columns in ascending order, and for each cell its three boxes. \<open>nat_fp n\<close> is the
  \<^verbatim>\<open>float32\<close> with the value of the natural number \<open>n\<close>.
\<close>

definition nat_fp :: "nat \<Rightarrow> fp" where
  "nat_fp n = Finite False (of_nat n)"

definition row_anchors :: "fp list \<Rightarrow> fp list \<Rightarrow> int \<Rightarrow> nat \<Rightarrow> nat \<Rightarrow> box list" where
  "row_anchors heights widths featureStride cols j =
     concat (map (\<lambda>i. cell_boxes heights widths featureStride (nat_fp j) (nat_fp i)) [0 ..< cols])"

definition level_anchors :: "fp list \<Rightarrow> fp list \<Rightarrow> int \<Rightarrow> nat \<Rightarrow> nat \<Rightarrow> box list" where
  "level_anchors heights widths featureStride rows cols =
     concat (map (row_anchors heights widths featureStride cols) [0 ..< rows])"

text \<open>
  The anchors of the whole pyramid for an image of height \<open>H\<close> and width \<open>W\<close>: level by
  level in the order of the configured scales, each level with its own stride and with
  \<open>\<lceil>H / stride\<rceil>\<close> rows and \<open>\<lceil>W / stride\<rceil>\<close> columns.
\<close>

definition default_ratios :: "fp list" where
  "default_ratios = [f_const F32 (1 / 2), f_const F32 1, f_const F32 2]"

definition ceil_div :: "int \<Rightarrow> int \<Rightarrow> nat" where
  "ceil_div H s = nat \<lceil>(of_int H :: rat) / of_int s\<rceil>"

definition pyramid_level :: "int \<Rightarrow> int \<Rightarrow> int \<times> int \<Rightarrow> box list" where
  "pyramid_level H W l =
     (case l of (scale, stride) \<Rightarrow>
        level_anchors (anchor_heights scale default_ratios) (anchor_widths scale default_ratios)
          stride (ceil_div H stride) (ceil_div W stride))"

definition pyramid_anchors :: "int \<Rightarrow> int \<Rightarrow> box list" where
  "pyramid_anchors H W =
     concat (map (pyramid_level H W) [(32, 4), (64, 8), (128, 16), (256, 32), (512, 64)])"



text \<open>A finite float lies within \<open>eps\<close> of a rational.\<close>

fun fp_within :: "fp \<Rightarrow> rat \<Rightarrow> rat \<Rightarrow> bool" where
  "fp_within (Finite s m) d eps = (\<bar>sval s m - d\<bar> \<le> eps)"
| "fp_within _ d eps = False"

section \<open>Tensors by position\<close>

text \<open>The entry of a nested value at a list of indices, outermost first.\<close>

fun elem :: "goval \<Rightarrow> nat list \<Rightarrow> goval option" where
  "elem v [] = Some v"
| "elem (Arr vs) (i # is) = (if i < length vs then elem (vs ! i) is else None)"
| "elem (Scalar x) (i # is) = None"

definition third_tensor :: "error + (tensor \<times> tensor \<times> tensor) \<Rightarrow> error + tensor" where
  "third_tensor r = map_sum id (\<lambda>t. snd (snd t)) r"

definition anchors_shape :: "(error + box list list) option \<Rightarrow> (error + nat list) option" where
  "anchors_shape r = map_option (map_sum id (\<lambda>a. shape_of (anchors_val a))) r"

section \<open>Anchor boxes in order\<close>

text \<open>
  A box \<open>(y1, x1, y2, x2)\<close> is ordered when \<open>y1 \<le> y2\<close> and \<open>x1 \<le> x2\<close> as Go compares
  floats. \<open>positive_f32\<close> holds of the positive finite values of \<^verbatim>\<open>float32\<close>, and
  \<open>nth_box n r\<close> is box \<open>n\<close> of a returned anchor list.
\<close>

definition box_ordered :: "box \<Rightarrow> bool" where
  "box_ordered b = (case b of (y1, x1, y2, x2) \<Rightarrow> fle y1 y2 \<and> fle x1 x2)"

fun positive_f32 :: "fp \<Rightarrow> bool" where
  "positive_f32 (Finite s m) = (\<not> s \<and> 0 < m \<and> rnd F32 s m = Finite s m)"
| "positive_f32 _ = False"

definition nth_box :: "nat \<Rightarrow> (error + box list) option \<Rightarrow> box option" where
  "nth_box n r =
     (case r of
        Some (Inr boxes) \<Rightarrow> (if n < length boxes then Some (boxes ! n) else None)
      | _ \<Rightarrow> None)"

section \<open>The anchors of a cell, by ratio\<close>

text \<open>
  \<open>ratio_anchor scales ratio featureStride j i\<close> is the box that one pass of the innermost
  loop appends at the counters \<open>j\<close> and \<open>i\<close> for the ratio it reads: the height
  \<^verbatim>\<open>float32(scales) / float32(math.Sqrt(float64(ratio)))\<close> and the width
  \<^verbatim>\<open>float32(scales) * float32(math.Sqrt(float64(ratio)))\<close> around the centre
  \<open>(j * featureStride, i * featureStride)\<close>. \<open>cell_anchors\<close> lists the anchors of a cell for
  three ratios in their order, and \<open>grid rows cols\<close> the cells of a feature map row by row,
  within a row by ascending column.
\<close>

definition ratio_anchor :: "int \<Rightarrow> fp \<Rightarrow> int \<Rightarrow> fp \<Rightarrow> fp \<Rightarrow> box" where
  "ratio_anchor scales ratio featureStride j i =
     (let s = f_conv F32 (fsqrt F64 (f_conv F64 ratio));
          height = fdiv F32 (f_of_int F32 scales) s;
          width = fmul F32 (f_of_int F32 scales) s
      in (fsub F32 (fmul F32 j (f_of_int F32 featureStride))
            (fmul F32 (f_const F32 (1 / 2)) height),
          fsub F32 (fmul F32 i (f_of_int F32 featureStride))
            (fmul F32 (f_const F32 (1 / 2)) width),
          fadd F32 (fmul F32 j (f_of_int F32 featureStride))
            (fmul F32 (f_const F32 (1 / 2)) height),
          fadd F32 (fmul F32 i (f_of_int F32 featureStride))
            (fmul F32 (f_const F32 (1 / 2)) width)))"

definition cell_anchors :: "int \<Rightarrow> fp \<Rightarrow> fp \<Rightarrow> fp \<Rightarrow> int \<Rightarrow> fp \<times> fp \<Rightarrow> box list" where
  "cell_anchors scales r0 r1 r2 featureStride cell =
     [ratio_anchor scales r0 featureStride (fst cell) (snd cell),
      ratio_anchor scales r1 featureStride (fst cell) (snd cell),
      ratio_anchor scales r2 featureStride (fst cell) (snd cell)]"

definition grid :: "nat \<Rightarrow> nat \<Rightarrow> (fp \<times> fp) list" where
  "grid rows cols =
     concat (map (\<lambda>j. map (\<lambda>i. (nat_fp j, nat_fp i)) [0 ..< cols]) [0 ..< rows])"

section \<open>Properties of the floating-point model\<close>

subsection \<open>Powers of two and exponents\<close>

lemma powi_nat: "0 \<le> e \<Longrightarrow> (2::rat) powi e = 2 ^ nat e"
  by (simp add: power_int_def)

lemma powi_neg: "e \<le> 0 \<Longrightarrow> (2::rat) powi e = 1 / 2 ^ nat (- e)"
  by (cases "e = 0") (simp_all add: power_int_def field_simps)

lemma powi_pos [simp]: "0 < (2::rat) powi e"
  by (simp add: zero_less_power_int)

lemma powi_mono: "a \<le> b \<Longrightarrow> (2::rat) powi a \<le> 2 powi b"
  by (rule power_int_increasing) simp_all

lemma powi_strict_mono: "a < b \<Longrightarrow> (2::rat) powi a < 2 powi b"
  by (rule power_int_strict_increasing) simp_all

lemma powi_Suc: "(2::rat) powi (e + 1) = 2 * 2 powi e"
  by (simp add: power_int_add)

lemma of_int_le_pow2: "n \<le> 2 ^ k \<Longrightarrow> (of_int n :: rat) \<le> 2 ^ k"
  by (metis of_int_le_iff of_int_numeral of_int_power)

lemma pow2_le_of_int: "2 ^ k \<le> n \<Longrightarrow> (2::rat) ^ k \<le> of_int n"
  by (metis of_int_le_iff of_int_numeral of_int_power)

lemma ilog2_lower:
  assumes "0 < m"
  shows "2 powi (ilog2 m) \<le> m"
proof (cases "1 \<le> m")
  case True
  define n where "n = \<lfloor>m\<rfloor>"
  have n: "0 < n" using True by (simp add: n_def)
  have b: "1 \<le> bitlen n" using n by (simp add: bitlen_alt_def)
  from bitlen_bounds [OF n] have "(2::int) ^ nat (bitlen n - 1) \<le> n" by simp
  then have "(2::rat) ^ nat (bitlen n - 1) \<le> of_int n"
    by (rule pow2_le_of_int)
  also have "\<dots> \<le> m" by (simp add: n_def)
  finally show ?thesis using True b by (simp add: ilog2_def n_def powi_nat)
next
  case False
  define c where "c = \<lceil>1 / m\<rceil>"
  have "1 < 1 / m" using False assms by (simp add: field_simps)
  then have c: "2 \<le> c" unfolding c_def by (simp add: le_ceiling_iff) 
  define n where "n = c - 1"
  have n: "0 < n" using c by (simp add: n_def)
  from bitlen_bounds [OF n] have "n < 2 ^ nat (bitlen n)" by simp
  then have "c \<le> 2 ^ nat (bitlen n)" by (simp add: n_def)
  then have "(of_int c :: rat) \<le> 2 ^ nat (bitlen n)"
    by (rule of_int_le_pow2)
  moreover have "1 / m \<le> of_int c" by (simp add: c_def)
  ultimately have "1 / m \<le> 2 ^ nat (bitlen n)" by linarith
  then have "1 / 2 ^ nat (bitlen n) \<le> m" using assms by (simp add: field_simps)
  moreover have "0 \<le> bitlen n" by (rule bitlen_nonneg)
  ultimately show ?thesis using False
    by (simp add: ilog2_def c_def [symmetric] n_def [symmetric] powi_neg)
qed

lemma ilog2_upper:
  assumes "0 < m"
  shows "m < 2 powi (ilog2 m + 1)"
proof (cases "1 \<le> m")
  case True
  define n where "n = \<lfloor>m\<rfloor>"
  have n: "0 < n" using True by (simp add: n_def)
  have b: "1 \<le> bitlen n" using n by (simp add: bitlen_alt_def)
  from bitlen_bounds [OF n] have "n + 1 \<le> 2 ^ nat (bitlen n)" by simp
  then have "(of_int (n + 1) :: rat) \<le> 2 ^ nat (bitlen n)"
    by (rule of_int_le_pow2)
  moreover have "m < of_int (n + 1)" unfolding n_def by linarith
  ultimately have "m < 2 ^ nat (bitlen n)" by linarith
  then show ?thesis using True b by (simp add: ilog2_def n_def [symmetric] powi_nat)
next
  case False
  define c where "c = \<lceil>1 / m\<rceil>"
  have "1 < 1 / m" using False assms by (simp add: field_simps)
  then have c: "2 \<le> c" unfolding c_def by (simp add: le_ceiling_iff) 
  define n where "n = c - 1"
  have n: "0 < n" using c by (simp add: n_def)
  have b: "1 \<le> bitlen n" using n by (simp add: bitlen_alt_def)
  from bitlen_bounds [OF n] have "(2::int) ^ nat (bitlen n - 1) \<le> n" by simp
  then have "(2::rat) ^ nat (bitlen n - 1) \<le> of_int n"
    by (rule pow2_le_of_int)
  moreover have "of_int n < 1 / m" unfolding n_def c_def by linarith
  ultimately have "2 ^ nat (bitlen n - 1) < 1 / m" by linarith
  then have "m < 1 / 2 ^ nat (bitlen n - 1)" using assms by (simp add: field_simps)
  moreover have "- bitlen n + 1 \<le> 0" using b by simp
  moreover have "nat (- (- bitlen n + 1)) = nat (bitlen n - 1)" by simp
  ultimately show ?thesis using False
    by (simp add: ilog2_def c_def [symmetric] n_def [symmetric] powi_neg del: minus_add_distrib)
qed

lemma ilog2_unique:
  assumes "2 powi e \<le> m" "m < 2 powi (e + 1)"
  shows "ilog2 m = e"
proof -
  have m: "0 < m" using assms(1) powi_pos [of e] by linarith
  have "\<not> ilog2 m < e"
  proof
    assume "ilog2 m < e"
    then have "2 powi (ilog2 m + 1) \<le> (2::rat) powi e" by (intro powi_mono) simp
    with ilog2_upper [OF m] assms(1) show False by linarith
  qed
  moreover have "\<not> e < ilog2 m"
  proof
    assume "e < ilog2 m"
    then have "2 powi (e + 1) \<le> (2::rat) powi (ilog2 m)" by (intro powi_mono) simp
    with ilog2_lower [OF m] assms(2) show False by linarith
  qed
  ultimately show ?thesis by linarith
qed


lemma ilog2_mono:
  assumes "0 < x" "x \<le> y"
  shows "ilog2 x \<le> ilog2 y"
proof (rule ccontr)
  assume "\<not> ilog2 x \<le> ilog2 y"
  then have "2 powi (ilog2 y + 1) \<le> (2::rat) powi (ilog2 x)" by (intro powi_mono) simp
  moreover have "y < 2 powi (ilog2 y + 1)" using assms by (intro ilog2_upper) simp
  moreover have "2 powi (ilog2 x) \<le> x" using assms by (intro ilog2_lower)
  ultimately show False using assms by linarith
qed

lemma ilog2_powi [simp]: "ilog2 (2 powi e) = e"
  by (rule ilog2_unique) (simp_all add: powi_strict_mono)

subsection \<open>Rounding to the nearest integer\<close>

lemma rne_of_int [simp]: "rne (of_int n) = n"
  by (simp add: rne_def)

lemma rne_cases:
  "rne x = \<lfloor>x\<rfloor> \<and> x - of_int \<lfloor>x\<rfloor> \<le> 1 / 2 \<or> rne x = \<lfloor>x\<rfloor> + 1 \<and> 1 / 2 \<le> x - of_int \<lfloor>x\<rfloor>"
  by (auto simp: rne_def Let_def)

lemma rne_mono:
  assumes "x \<le> y"
  shows "rne x \<le> rne y"
proof (cases "\<lfloor>x\<rfloor> = \<lfloor>y\<rfloor>")
  case True
  then show ?thesis using assms by (auto simp: rne_def Let_def)
next
  case False
  then have "\<lfloor>x\<rfloor> + 1 \<le> \<lfloor>y\<rfloor>" using floor_mono [OF assms] by linarith
  moreover have "rne x \<le> \<lfloor>x\<rfloor> + 1" using rne_cases [of x] by linarith
  moreover have "\<lfloor>y\<rfloor> \<le> rne y" using rne_cases [of y] by linarith
  ultimately show ?thesis by linarith
qed

lemma rne_ge_int: "of_int k \<le> x \<Longrightarrow> k \<le> rne x"
  using rne_mono [of "of_int k" x] by simp

lemma rne_le_int: "x \<le> of_int k \<Longrightarrow> rne x \<le> k"
  using rne_mono [of x "of_int k"] by simp

lemma rne_nonneg: "0 \<le> x \<Longrightarrow> 0 \<le> rne x"
  using rne_ge_int [of 0 x] by simp

lemma rne_upper: "of_int (rne x) \<le> x + 1 / 2"
  using rne_cases [of x] by (auto; linarith)

lemma rne_lower: "x - 1 / 2 \<le> of_int (rne x)"
  using rne_cases [of x] by (auto; linarith)


subsection \<open>Rounding a magnitude to a format\<close>

lemma powi_of_int: "0 \<le> k \<Longrightarrow> (2::rat) powi k = of_int (2 ^ nat k)"
  by (simp add: powi_nat)

lemma powi_diff: "(2::rat) powi (a - b) = 2 powi a / 2 powi b"
  by (simp add: power_int_diff)

lemma powi_add: "(2::rat) powi (a + b) = 2 powi a * 2 powi b"
  by (simp add: power_int_add)

lemma quantum_mono: "0 < x \<Longrightarrow> x \<le> y \<Longrightarrow> quantum F x \<le> quantum F y"
  using ilog2_mono [of x y] by (simp add: quantum_def)

lemma rmag_exact:
  assumes "m = of_int k * 2 powi quantum F m"
  shows "rmag F m = m"
proof -
  have "m / 2 powi quantum F m = of_int k"
    using assms powi_pos [of "quantum F m"] by (simp add: field_simps)
  then show ?thesis using assms by (simp add: rmag_def)
qed

lemma rne_zero [simp]: "rne 0 = 0"
  by (simp add: rne_def)

lemma rmag_zero [simp]: "rmag F 0 = 0"
  by (simp add: rmag_def)

lemma rmag_nonneg: "0 \<le> m \<Longrightarrow> 0 \<le> rmag F m"
  unfolding rmag_def by (intro mult_nonneg_nonneg) (simp_all add: rne_nonneg less_imp_le)

lemma rmag_le_pow:
  assumes "0 < x" "x \<le> 2 powi b" "quantum F x \<le> b"
  shows "rmag F x \<le> 2 powi b"
proof -
  define q where "q = quantum F x"
  have "x / 2 powi q \<le> 2 powi b / 2 powi q"
    using assms(2) by (simp add: divide_right_mono less_imp_le)
  also have "\<dots> = of_int (2 ^ nat (b - q))"
    using assms(3) by (simp add: q_def powi_diff [symmetric] powi_of_int)
  finally have "rne (x / 2 powi q) \<le> 2 ^ nat (b - q)" by (rule rne_le_int)
  then have "(of_int (rne (x / 2 powi q)) :: rat) \<le> of_int (2 ^ nat (b - q))"
    by (simp only: of_int_le_iff)
  also have "\<dots> = 2 powi b / 2 powi q"
    using assms(3) by (simp add: q_def powi_diff [symmetric] powi_of_int)
  finally have "(of_int (rne (x / 2 powi q)) :: rat) * 2 powi q \<le> 2 powi b"
    by (simp add: field_simps)
  then show ?thesis by (simp add: rmag_def q_def)
qed

lemma rmag_ge_pow:
  assumes "2 powi b \<le> y" "quantum F y \<le> b"
  shows "2 powi b \<le> rmag F y"
proof -
  define q where "q = quantum F y"
  have eq: "(2::rat) powi b / 2 powi q = of_int (2 ^ nat (b - q))"
    using assms(2) by (simp add: q_def powi_diff [symmetric] powi_of_int)
  have "2 powi b / 2 powi q \<le> y / 2 powi q"
    using assms(1) by (simp add: divide_right_mono less_imp_le)
  then have "of_int (2 ^ nat (b - q)) \<le> y / 2 powi q" by (simp only: eq)
  then have "2 ^ nat (b - q) \<le> rne (y / 2 powi q)" by (rule rne_ge_int)
  then have "(of_int (2 ^ nat (b - q)) :: rat) \<le> of_int (rne (y / 2 powi q))"
    by (simp only: of_int_le_iff)
  then have "(2::rat) powi b / 2 powi q \<le> of_int (rne (y / 2 powi q))"
    by (simp only: eq)
  then have "(2::rat) powi b \<le> of_int (rne (y / 2 powi q)) * 2 powi q"
    by (simp add: pos_divide_le_eq)
  then show ?thesis by (simp add: rmag_def q_def)
qed

lemma rmag_mono:
  assumes "0 < x" "x \<le> y" "1 \<le> prec F"
  shows "rmag F x \<le> rmag F y"
proof (cases "quantum F x = quantum F y")
  case True
  have "x / 2 powi quantum F y \<le> y / 2 powi quantum F y"
    using assms(2) by (simp add: divide_right_mono less_imp_le)
  then have "rne (x / 2 powi quantum F y) \<le> rne (y / 2 powi quantum F y)"
    by (rule rne_mono)
  then have "(of_int (rne (x / 2 powi quantum F y)) :: rat) \<le> of_int (rne (y / 2 powi quantum F y))"
    by (simp only: of_int_le_iff)
  then show ?thesis using True
    by (simp add: rmag_def mult_right_mono less_imp_le)
next
  case False
  have y: "0 < y" using assms by linarith
  have lt: "quantum F x < quantum F y"
    using False quantum_mono [OF assms(1,2), of F] by linarith
  then have qy: "quantum F y = ilog2 y - (int (prec F) - 1)"
    by (auto simp: quantum_def max_def split: if_splits)
  have lx: "ilog2 x < ilog2 y"
    using lt qy by (auto simp: quantum_def max_def split: if_splits)
  define b where "b = ilog2 y"
  have "x < 2 powi (ilog2 x + 1)" by (rule ilog2_upper [OF assms(1)])
  also have "\<dots> \<le> 2 powi b" unfolding b_def using lx by (intro powi_mono) simp
  finally have xb: "x \<le> 2 powi b" by simp
  have yb: "2 powi b \<le> y" unfolding b_def by (rule ilog2_lower [OF y])
  have "quantum F x \<le> b" using lt qy assms(3) by (simp add: b_def)
  with xb have "rmag F x \<le> 2 powi b" by (intro rmag_le_pow assms(1))
  moreover have "quantum F y \<le> b" using qy assms(3) by (simp add: b_def)
  with yb have "2 powi b \<le> rmag F y" by (intro rmag_ge_pow)
  ultimately show ?thesis by linarith
qed

lemma rmag_of_nat:
  assumes "n \<le> 2 ^ prec F" "qmin F \<le> 0" "1 \<le> prec F"
  shows "rmag F (of_nat n) = of_nat n"
proof (cases "n = 0")
  case True
  then show ?thesis by simp
next
  case False
  define m :: rat where "m = of_nat n"
  define p where "p = int (prec F)"
  have m: "0 < m" using False by (simp add: m_def)
  have mp: "m \<le> 2 powi p"
  proof -
    have "(of_nat n :: rat) \<le> of_nat (2 ^ prec F)" using assms(1) by (simp only: of_nat_le_iff)
    then show ?thesis by (simp add: m_def p_def)
  qed
  define q where "q = quantum F m"
  show ?thesis
  proof (cases "q \<le> 0")
    case True
    have "m = of_int (int n * 2 ^ nat (- q)) * 2 powi q"
      using True by (simp add: m_def powi_neg)
    then show ?thesis unfolding m_def [symmetric] q_def by (rule rmag_exact)
  next
    case False
    then have q: "q = ilog2 m - (p - 1)" "p \<le> ilog2 m"
      using assms(2) by (auto simp: q_def quantum_def p_def max_def split: if_splits)
    have "2 powi p \<le> (2::rat) powi (ilog2 m)" using q(2) by (rule powi_mono)
    also have "\<dots> \<le> m" by (rule ilog2_lower [OF m])
    finally have meq: "m = 2 powi p" using mp by simp
    then have "ilog2 m = p" by simp
    then have q1: "q = 1" using q(1) by simp
    have "(2::rat) powi p = 2 powi (p - 1) * 2 powi 1" by (simp only: powi_add [symmetric]) simp
    moreover have "0 \<le> p - 1" using assms(3) by (simp add: p_def)
    ultimately have "m = of_int (2 ^ nat (p - 1)) * 2 powi q"
      by (simp add: meq q1 powi_of_int)
    then show ?thesis unfolding m_def [symmetric] q_def by (rule rmag_exact)
  qed
qed


subsection \<open>Natural numbers as floats\<close>

lemma F32_simps [simp]: "prec F32 = 24" "qmin F32 = - 149" "emax F32 = 127"
  by (simp_all add: F32_def)

lemma F64_simps [simp]: "prec F64 = 53" "qmin F64 = - 1074" "emax F64 = 1023"
  by (simp_all add: F64_def)

lemma rnd_of_nat32:
  assumes "n \<le> 2 ^ 24"
  shows "rnd F32 s (of_nat n) = Finite s (of_nat n)"
proof -
  have r: "rmag F32 (of_nat n) = of_nat n" using assms by (intro rmag_of_nat) simp_all
  have "(of_nat n :: rat) \<le> of_nat (2 ^ 24)" using assms by (simp only: of_nat_le_iff)
  then have "(of_nat n :: rat) < 2 powi 128" by simp
  then show ?thesis by (simp add: rnd_def r)
qed

lemma f_of_int_nat32: "n \<le> 2 ^ 24 \<Longrightarrow> f_of_int F32 (int n) = nat_fp n"
  using rnd_of_nat32 [of n False] by (simp add: f_of_int_def nat_fp_def)

lemma f_of_int_1: "f_of_int F32 1 = nat_fp 1"
  using f_of_int_nat32 [of 1] by simp

lemma fadd_nat_fp:
  assumes "a + b \<le> 2 ^ 24"
  shows "fadd F32 (nat_fp a) (nat_fp b) = nat_fp (a + b)"
  using rnd_of_nat32 [OF assms, of False]
  by (auto simp: nat_fp_def rnd_signed_def sval_def)

lemma flt_nat_fp [simp]: "flt (nat_fp a) (nat_fp b) = (a < b)"
  by (simp add: nat_fp_def sval_def)

subsection \<open>The loops with anchor stride 1\<close>

lemma cols_loop_nat:
  assumes "c \<le> 2 ^ 24" "i \<le> c"
  shows "cols_loop h w (nat_fp c) fs 1 j (nat_fp i) boxes =
           Some (boxes @ concat (map (\<lambda>i'. cell_boxes h w fs j (nat_fp i')) [i ..< c]))"
  using assms(2)
proof (induction "c - i" arbitrary: i boxes)
  case 0
  then show ?case by (subst cols_loop.simps) simp
next
  case (Suc d)
  then have lt: "i < c" by simp
  then have "i + 1 \<le> 2 ^ 24" using assms(1) by simp
  then have step: "fadd F32 (nat_fp i) (f_of_int F32 1) = nat_fp (Suc i)"
    by (simp add: f_of_int_1 fadd_nat_fp)
  have "d = c - Suc i" "Suc i \<le> c" using Suc.hyps(2) lt by simp_all
  from Suc.hyps(1) [OF this] show ?case
    using lt by (subst cols_loop.simps) (simp add: step upt_conv_Cons)
qed

lemma rows_loop_nat:
  assumes "r \<le> 2 ^ 24" "c \<le> 2 ^ 24" "j \<le> r"
  shows "rows_loop h w (nat_fp r) (nat_fp c) fs 1 (nat_fp j) boxes =
           Some (boxes @ concat (map (row_anchors h w fs c) [j ..< r]))"
  using assms(3)
proof (induction "r - j" arbitrary: j boxes)
  case 0
  then show ?case by (subst rows_loop.simps) simp
next
  case (Suc d)
  then have lt: "j < r" by simp
  then have "j + 1 \<le> 2 ^ 24" using assms(1) by simp
  then have step: "fadd F32 (nat_fp j) (f_of_int F32 1) = nat_fp (Suc j)"
    by (simp add: f_of_int_1 fadd_nat_fp)
  have zero: "Finite False 0 = nat_fp 0" by (simp add: nat_fp_def)
  have "d = r - Suc j" "Suc j \<le> r" using Suc.hyps(2) lt by simp_all
  from Suc.hyps(1) [OF this] show ?case
    using lt
    by (subst rows_loop.simps)
      (simp add: step upt_conv_Cons zero cols_loop_nat [OF assms(2)] row_anchors_def)
qed

lemma length_cell_boxes [simp]: "length (cell_boxes h w fs j i) = 3"
  by (simp add: cell_boxes_def)

lemma length_row_anchors [simp]: "length (row_anchors h w fs c j) = 3 * c"
  by (simp add: row_anchors_def length_concat comp_def sum_list_triv)

lemma length_level_anchors [simp]: "length (level_anchors h w fs r c) = 3 * c * r"
  by (simp add: level_anchors_def length_concat comp_def sum_list_triv)

lemma generateAnchors_nat:
  assumes "3 \<le> length ratios" "r \<le> 2 ^ 24" "c \<le> 2 ^ 24"
  shows "generateAnchors scales ratios [nat_fp r, nat_fp c] fs 1 =
           Some (Inr (level_anchors (anchor_heights scales ratios) (anchor_widths scales ratios)
                        fs r c))"
proof -
  have zero: "Finite False 0 = nat_fp 0" by (simp add: nat_fp_def)
  show ?thesis
    using assms(1) rows_loop_nat [OF assms(2,3), of 0 _ _ fs "[]"]
    by (auto simp: generateAnchors_def Let_def zero level_anchors_def)
qed

subsection \<open>The values of a format\<close>

lemma ilog2_scale:
  assumes "0 < m"
  shows "ilog2 (m * 2 powi a) = ilog2 m + a"
proof (rule ilog2_unique)
  show "2 powi (ilog2 m + a) \<le> m * 2 powi a"
    using ilog2_lower [OF assms] by (simp add: powi_add)
  show "m * 2 powi a < 2 powi (ilog2 m + a + 1)"
    using ilog2_upper [OF assms] by (simp add: powi_add)
qed

lemma ilog2_less:
  assumes "0 < m" "m < 2 powi b"
  shows "ilog2 m < b"
proof (rule ccontr)
  assume "\<not> ilog2 m < b"
  then have "(2::rat) powi b \<le> 2 powi (ilog2 m)" by (intro powi_mono) simp
  with ilog2_lower [OF assms(1)] assms(2) show False by linarith
qed

text \<open>Every \<open>n * 2^a\<close> with \<open>n < 2^prec\<close> and \<open>a\<close> not below the least quantum is a value of the format.\<close>

lemma rmag_scaled_int:
  assumes "0 \<le> n" "n < 2 ^ prec F" "qmin F \<le> a"
  shows "rmag F (of_int n * 2 powi a) = of_int n * 2 powi a"
proof (cases "n = 0")
  case True
  then show ?thesis by simp
next
  case False
  define m :: rat where "m = of_int n * 2 powi a"
  define q where "q = quantum F m"
  have n: "0 < (of_int n :: rat)" using False assms(1) by simp
  have "(of_int n :: rat) < of_int (2 ^ prec F)" using assms(2) by (simp only: of_int_less_iff)
  then have "(of_int n :: rat) < 2 powi (int (prec F))" by simp
  with n have "ilog2 (of_int n) < int (prec F)" by (rule ilog2_less)
  then have "ilog2 m - (int (prec F) - 1) \<le> a" by (simp add: m_def ilog2_scale [OF n])
  then have qa: "q \<le> a" using assms(3) by (simp add: q_def quantum_def)
  have "(2::rat) powi a = 2 powi (a - q) * 2 powi q" by (simp only: powi_add [symmetric]) simp
  then have "m = of_int (n * 2 ^ nat (a - q)) * 2 powi q"
    using qa by (simp add: m_def powi_of_int)
  then show ?thesis unfolding m_def [symmetric] q_def by (rule rmag_exact)
qed

lemma rnd_scaled_int:
  assumes "0 \<le> n" "n < 2 ^ prec F" "qmin F \<le> a" "of_int n * 2 powi a < (2::rat) powi (emax F + 1)"
  shows "rnd F s (of_int n * 2 powi a) = Finite s (of_int n * 2 powi a)"
  using assms(4) by (simp add: rnd_def rmag_scaled_int [OF assms(1-3)])

lemma rnd_of_int64:
  assumes "0 \<le> n" "n < 2 ^ 53"
  shows "rnd F64 s (of_int n) = Finite s (of_int n)"
proof -
  have "(of_int n :: rat) < of_int (2 ^ 53)" using assms(2) by (simp only: of_int_less_iff)
  then have "(of_int n :: rat) * 2 powi 0 < 2 powi (emax F64 + 1)" by simp
  with rnd_scaled_int [of n F64 0 s] assms show ?thesis by simp
qed

lemma rnd_of_int32:
  assumes "0 \<le> n" "n \<le> 2 ^ 24"
  shows "rnd F32 s (of_int n) = Finite s (of_int n)"
  using rnd_of_nat32 [of "nat n" s] assms by simp

text \<open>One entry of a backbone shape, for a stride that is a power of two.\<close>

lemma shape_entry:
  assumes "0 \<le> H" "H < 2 ^ 53" "ceil_div H (2 ^ k) \<le> 2 ^ 24" "k \<le> 10"
  shows "f_conv F32 (fceil (fdiv F64 (f_of_int F64 H) (f_of_int F64 (2 ^ k)))) =
           nat_fp (ceil_div H (2 ^ k))"
proof -
  have H: "f_of_int F64 H = Finite False (of_int H)"
    using assms(1,2) by (simp add: f_of_int_def rnd_of_int64)
  have "(2::int) ^ k \<le> 2 ^ 10" using assms(4) by (intro power_increasing) simp_all
  then have "(2::int) ^ k < 2 ^ 53" by simp
  then have s: "f_of_int F64 (2 ^ k) = Finite False (2 ^ k)"
    using rnd_of_int64 [of "2 ^ k" False] by (simp add: f_of_int_def)
  have lt: "(of_int H :: rat) < 2 powi (emax F64 + 1)"
  proof -
    have "(of_int H :: rat) < of_int (2 ^ 53)" using assms(2) by (simp only: of_int_less_iff)
    also have "\<dots> = 2 powi 53" by simp
    also have "\<dots> \<le> 2 powi (emax F64 + 1)" by (rule powi_mono) simp
    finally show ?thesis .
  qed
  have "(2::rat) powi (- int k) \<le> 2 powi 0" by (rule powi_mono) simp
  then have "(of_int H :: rat) * 2 powi (- int k) \<le> of_int H * 1"
    using assms(1) by (intro mult_left_mono) simp_all
  with lt have "(of_int H :: rat) * 2 powi (- int k) < 2 powi (emax F64 + 1)"
    by linarith
  moreover have "qmin F64 \<le> - int k" using assms(4) by simp
  ultimately have "rnd F64 False (of_int H * 2 powi (- int k)) = Finite False (of_int H * 2 powi (- int k))"
    using assms(1,2) by (intro rnd_scaled_int) simp_all
  then have d: "rnd F64 False (of_int H / 2 ^ k) = Finite False (of_int H / 2 ^ k)"
    by (simp add: powi_neg)
  have "0 \<le> (of_int H :: rat) / 2 ^ k" using assms(1) by simp
  then have "\<lceil>0::rat\<rceil> \<le> \<lceil>(of_int H :: rat) / 2 ^ k\<rceil>" by (rule ceiling_mono)
  then have c: "0 \<le> \<lceil>(of_int H :: rat) / 2 ^ k\<rceil>" by simp
  have "int (ceil_div H (2 ^ k)) \<le> int (2 ^ 24)" using assms(3) by (simp only: of_nat_le_iff)
  then have "\<lceil>(of_int H :: rat) / 2 ^ k\<rceil> \<le> 2 ^ 24" using c by (simp add: ceil_div_def)
  with c have "rnd F32 False (of_int \<lceil>(of_int H :: rat) / 2 ^ k\<rceil>) = Finite False (of_int \<lceil>(of_int H :: rat) / 2 ^ k\<rceil>)"
    by (rule rnd_of_int32)
  then show ?thesis using c by (simp add: H s d sval_def nat_fp_def ceil_div_def)
qed

lemma ceil_div_mono: "0 < s \<Longrightarrow> H \<le> H' \<Longrightarrow> ceil_div H s \<le> ceil_div H' s"
  unfolding ceil_div_def by (intro nat_mono ceiling_mono divide_right_mono) simp_all

lemma ceil_div_bound:
  assumes "H \<le> 2 ^ 26" "2 \<le> k"
  shows "ceil_div H (2 ^ k) \<le> 2 ^ 24"
proof -
  have "(2::rat) ^ 2 \<le> 2 ^ k" using assms(2) by (intro power_increasing) simp_all
  then have k: "(4::rat) \<le> 2 ^ k" by simp
  have "(of_int H :: rat) \<le> of_int (2 ^ 26)" using assms(1) by (simp only: of_int_le_iff)
  then have "(of_int H :: rat) / 2 ^ k \<le> of_int (2 ^ 26) / 2 ^ k"
    by (intro divide_right_mono) simp_all
  also have "\<dots> \<le> of_int (2 ^ 26) / 4"
    using k by (intro divide_left_mono) simp_all
  also have "\<dots> = of_int (2 ^ 24)" by simp
  finally have "(of_int H :: rat) / 2 ^ k \<le> of_int (2 ^ 24)" .
  then have "\<lceil>(of_int H :: rat) / 2 ^ k\<rceil> \<le> 2 ^ 24" by (simp only: ceiling_le_iff)
  then have "nat \<lceil>(of_int H :: rat) / 2 ^ k\<rceil> \<le> nat (2 ^ 24)" by (rule nat_mono)
  also have "nat (2 ^ 24) = 2 ^ 24" by simp
  finally show ?thesis unfolding ceil_div_def of_int_power of_int_numeral .
qed

subsection \<open>The pyramid of the default configuration\<close>

lemma pyramid_loop_levels:
  assumes "\<forall>i \<in> set is. i < length fshapes \<and> i < length fstrides \<and>
             generateAnchors (scales ! i) ratios (fshapes ! i) (fstrides ! i) a = Some (Inr (g i))"
  shows "pyramid_loop scales ratios fshapes fstrides a is acc = Some (Inr (acc @ concat (map g is)))"
  using assms by (induction "is" arbitrary: acc) simp_all

lemma shape_entry_default:
  assumes "0 \<le> H" "H \<le> 2 ^ 26" "2 \<le> k" "k \<le> 10"
  shows "f_conv F32 (fceil (fdiv F64 (f_of_int F64 H) (f_of_int F64 (2 ^ k)))) =
           nat_fp (ceil_div H (2 ^ k))"
  using assms by (intro shape_entry ceil_div_bound) simp_all

lemma computeBackboneShapes_default:
  assumes "0 \<le> Dy b" "Dy b \<le> 2 ^ 26" "0 \<le> Dx b" "Dx b \<le> 2 ^ 26"
  shows "computeBackboneShapes b [4, 8, 16, 32, 64] =
           map (\<lambda>s. [nat_fp (ceil_div (Dy b) s), nat_fp (ceil_div (Dx b) s)]) [4, 8, 16, 32, 64]"
  using shape_entry_default [OF assms(1,2), of 2] shape_entry_default [OF assms(3,4), of 2]
    shape_entry_default [OF assms(1,2), of 3] shape_entry_default [OF assms(3,4), of 3]
    shape_entry_default [OF assms(1,2), of 4] shape_entry_default [OF assms(3,4), of 4]
    shape_entry_default [OF assms(1,2), of 5] shape_entry_default [OF assms(3,4), of 5]
    shape_entry_default [OF assms(1,2), of 6] shape_entry_default [OF assms(3,4), of 6]
  by (simp add: computeBackboneShapes_def)

lemma ceil_div_default:
  assumes "H \<le> 2 ^ 26"
  shows "ceil_div H 4 \<le> 2 ^ 24" "ceil_div H 8 \<le> 2 ^ 24" "ceil_div H 16 \<le> 2 ^ 24"
    "ceil_div H 32 \<le> 2 ^ 24" "ceil_div H 64 \<le> 2 ^ 24"
  using ceil_div_bound [OF assms, of 2] ceil_div_bound [OF assms, of 3]
    ceil_div_bound [OF assms, of 4] ceil_div_bound [OF assms, of 5]
    ceil_div_bound [OF assms, of 6]
  by simp_all

lemma upt_5: "[0 ..< 5] = [0, 1, 2, 3, 4]"
  by (simp add: upt_rec)

lemma getAnchors_closed:
  assumes "0 \<le> Dy b" "Dy b \<le> 2 ^ 26" "0 \<le> Dx b" "Dx b \<le> 2 ^ 26"
  shows "getAnchors b = Some (Inr [pyramid_anchors (Dy b) (Dx b)])"
  using ceil_div_default [OF assms(2)] ceil_div_default [OF assms(4)]
  by (simp add: getAnchors_def generatePyramidAnchors_def computeBackboneShapes_default [OF assms]
      upt_5 generateAnchors_nat pyramid_anchors_def pyramid_level_def default_ratios_def)

subsection \<open>Evaluating the model on numerals\<close>

lemma floor_numeral_div: "\<lfloor>(numeral a :: rat) / numeral b\<rfloor> = numeral a div numeral b"
  using floor_divide_of_int_eq [of "numeral a" "numeral b", where ?'a = rat] by simp

lemma floor_one_div: "\<lfloor>(1 :: rat) / numeral b\<rfloor> = 1 div numeral b"
  using floor_divide_of_int_eq [of 1 "numeral b", where ?'a = rat] by simp

lemma ceiling_numeral_div: "\<lceil>(numeral a :: rat) / numeral b\<rceil> = - ((- numeral a) div numeral b)"
  using floor_divide_of_int_eq [of "- numeral a" "numeral b", where ?'a = rat]
  by (simp add: ceiling_def)

lemma ceiling_one_div: "\<lceil>(1 :: rat) / numeral b\<rceil> = - ((- 1) div numeral b)"
  using floor_divide_of_int_eq [of "- 1" "numeral b", where ?'a = rat]
  by (simp add: ceiling_def)

lemma bitlen_numeral: "bitlen (numeral n) = bitlen (numeral n div 2) + 1"
  by (subst compute_bitlen) simp

lemma bitlen_one: "bitlen 1 = 1"
  by (subst compute_bitlen) simp

lemma isqrt_bits_numeral:
  "isqrt_bits (numeral b) n a =
     isqrt_bits (pred_numeral b) n (if (a + 2 ^ pred_numeral b) * (a + 2 ^ pred_numeral b) \<le> n then a + 2 ^ pred_numeral b else a)"
  by (simp add: numeral_eq_Suc)

subsection \<open>The integer square root\<close>

lemma isqrt_bits_correct:
  assumes "0 \<le> a" "a * a \<le> n" "n < (a + 2 ^ b) * (a + 2 ^ b)"
  shows "isqrt_bits b n a * isqrt_bits b n a \<le> n \<and>
         n < (isqrt_bits b n a + 1) * (isqrt_bits b n a + 1) \<and> 0 \<le> isqrt_bits b n a"
  using assms
proof (induction b arbitrary: a)
  case 0
  then show ?case by simp
next
  case (Suc b)
  show ?case
  proof (cases "(a + 2 ^ b) * (a + 2 ^ b) \<le> n")
    case True
    have "n < (a + 2 ^ b + 2 ^ b) * (a + 2 ^ b + 2 ^ b)"
      using Suc.prems(3) by (simp add: algebra_simps)
    with Suc.IH [of "a + 2 ^ b"] True Suc.prems(1) show ?thesis by simp
  next
    case False
    with Suc.IH [of a] Suc.prems show ?thesis by simp
  qed
qed

lemma isqrt_correct:
  assumes "0 \<le> n"
  shows "isqrt n * isqrt n \<le> n \<and> n < (isqrt n + 1) * (isqrt n + 1) \<and> 0 \<le> isqrt n"
proof (cases "n = 0")
  case True
  then show ?thesis by (simp add: isqrt_def)
next
  case False
  then have n: "0 < n" using assms by simp
  have "n < 2 ^ nat (bitlen n)" using bitlen_bounds [OF n] by simp
  also have "\<dots> \<le> 2 ^ nat (bitlen n) * 2 ^ nat (bitlen n)"
    by (simp add: mult_le_cancel_left1)
  finally have "n < (0 + 2 ^ nat (bitlen n)) * (0 + 2 ^ nat (bitlen n))" by simp
  with isqrt_bits_correct [of 0 n "nat (bitlen n)"] assms show ?thesis
    by (simp add: isqrt_def)
qed

lemma isqrt_unique:
  assumes "0 \<le> k" "k * k \<le> n" "n < (k + 1) * (k + 1)"
  shows "isqrt n = k"
proof -
  have n: "0 \<le> n" using assms(2) zero_le_square [of k] by linarith
  note c = isqrt_correct [OF n]
  have "\<not> isqrt n < k"
  proof
    assume "isqrt n < k"
    then have "isqrt n + 1 \<le> k" by simp
    then have "(isqrt n + 1) * (isqrt n + 1) \<le> k * k"
      using c by (intro mult_mono) simp_all
    with c assms(2) show False by linarith
  qed
  moreover have "\<not> k < isqrt n"
  proof
    assume "k < isqrt n"
    then have "k + 1 \<le> isqrt n" by simp
    then have "(k + 1) * (k + 1) \<le> isqrt n * isqrt n"
      using assms(1) by (intro mult_mono) simp_all
    with c assms(3) show False by linarith
  qed
  ultimately show ?thesis by linarith
qed

lemma isqrt_2_104: "isqrt 20282409603651670423947251286016 = 4503599627370496"
  by (rule isqrt_unique) simp_all

lemma isqrt_2_105: "isqrt 40564819207303340847894502572032 = 6369051672525772"
  by (rule isqrt_unique) simp_all

lemmas fp_eval = rnd_def rmag_def quantum_def ilog2_def rne_def Let_def sval_def rnd_signed_def
  f_of_int_def f_const_def F32_def F64_def bitlen_numeral bitlen_one
  rnd_sqrt_def floor_numeral_div floor_one_div ceiling_numeral_div ceiling_one_div fsub_def
  isqrt_2_104 isqrt_2_105

subsection \<open>Comparisons\<close>

lemma fle_flt_trans: "fle a b \<Longrightarrow> flt b c \<Longrightarrow> flt a c"
  by (cases a; cases b; cases c) (auto simp: sval_def split: if_splits)

lemma flt_fle_trans: "flt a b \<Longrightarrow> fle b c \<Longrightarrow> flt a c"
  by (cases a; cases b; cases c) (auto simp: sval_def split: if_splits)

lemma fle_nat_fp [simp]: "fle (nat_fp a) (nat_fp b) = (a \<le> b)"
  by (simp add: nat_fp_def sval_def)

subsection \<open>A counter that has reached \<open>2^24\<close> stays there\<close>

lemma fadd_stall: "fadd F32 (nat_fp 16777216) (f_of_int F32 1) = nat_fp 16777216"
  by (simp add: nat_fp_def fp_eval)

lemma counter_step_le:
  assumes "n \<le> 2 ^ 24"
  shows "\<exists>n' \<le> 2 ^ 24. fadd F32 (nat_fp n) (f_of_int F32 1) = nat_fp n'"
proof (cases "n = 2 ^ 24")
  case True
  then show ?thesis using fadd_stall by auto
next
  case False
  then have "n + 1 \<le> 2 ^ 24" using assms by simp
  then have "fadd F32 (nat_fp n) (f_of_int F32 1) = nat_fp (n + 1)"
    by (simp add: f_of_int_1 fadd_nat_fp)
  then show ?thesis using \<open>n + 1 \<le> 2 ^ 24\<close> by blast
qed

lemma rows_loop_stall_aux:
  assumes "rows_loop h w s0 s1 fs a j boxes = Some y"
  shows "\<not> (a = 1 \<and> flt (nat_fp (2 ^ 24)) s0 \<and> (\<exists>n \<le> 2 ^ 24. j = nat_fp n))"
proof (rule rows_loop.raw_induct
    [where P = "\<lambda>h w s0 s1 fs a j boxes y.
       \<not> (a = 1 \<and> flt (nat_fp (2 ^ 24)) s0 \<and> (\<exists>n \<le> 2 ^ 24. j = nat_fp n))", OF _ assms])
  fix f h w s0 s1 fs a j boxes y
  assume IH: "\<And>h w s0 s1 fs a j boxes y. f h w s0 s1 fs a j boxes = Some y \<Longrightarrow>
      \<not> (a = 1 \<and> flt (nat_fp (2 ^ 24)) s0 \<and> (\<exists>n \<le> 2 ^ 24. j = nat_fp n))"
    and step: "(if flt j s0
        then Option.bind (cols_loop h w s1 fs a j (Finite False 0) boxes)
               (f h w s0 s1 fs a (fadd F32 j (f_of_int F32 a)))
        else Some boxes) = Some y"
  show "\<not> (a = 1 \<and> flt (nat_fp (2 ^ 24)) s0 \<and> (\<exists>n \<le> 2 ^ 24. j = nat_fp n))"
  proof
    assume inv: "a = 1 \<and> flt (nat_fp (2 ^ 24)) s0 \<and> (\<exists>n \<le> 2 ^ 24. j = nat_fp n)"
    then obtain n where n: "n \<le> 2 ^ 24" "j = nat_fp n" by blast
    have "fle (nat_fp n) (nat_fp (2 ^ 24))" using n(1) by simp
    with inv have lt: "flt j s0" unfolding n(2) by (blast intro: fle_flt_trans)
    from counter_step_le [OF n(1)] obtain n' where
      n': "n' \<le> 2 ^ 24" "fadd F32 (nat_fp n) (f_of_int F32 1) = nat_fp n'" by blast
    from step lt inv obtain b where
      "f h w s0 s1 fs 1 (nat_fp n') b = Some y"
      by (auto simp: n(2) n'(2) bind_eq_Some_conv)
    from IH [OF this] inv n'(1) show False by blast
  qed
qed

lemma rows_loop_stall:
  assumes "flt (nat_fp (2 ^ 24)) s0" "n \<le> 2 ^ 24"
  shows "rows_loop h w s0 s1 fs 1 (nat_fp n) boxes = None"
proof (cases "rows_loop h w s0 s1 fs 1 (nat_fp n) boxes")
  case None
  then show ?thesis .
next
  case (Some y)
  from rows_loop_stall_aux [OF this] assms show ?thesis by blast
qed

lemma generateAnchors_stall:
  assumes "3 \<le> length ratios" "flt (nat_fp (2 ^ 24)) s0"
  shows "generateAnchors scales ratios [s0, s1] fs 1 = None"
proof -
  have "flt (nat_fp 0) s0"
    using assms(2) by (rule fle_flt_trans [rotated]) simp
  then have "flt (Finite False 0) s0" by (simp add: nat_fp_def)
  moreover have "rows_loop h w s0 s1 fs 1 (Finite False 0) [] = None" for h w
    using rows_loop_stall [OF assms(2), of 0 h w s1 fs "[]"] by (simp add: nat_fp_def)
  ultimately show ?thesis using assms(1) by (simp add: generateAnchors_def)
qed

subsection \<open>A non-positive anchor stride never reaches a positive bound\<close>

lemma rnd_nonpos: "0 \<le> m \<Longrightarrow> fle (rnd F True m) (Finite False 0)"
  by (simp add: rnd_def sval_def rmag_nonneg)

lemma rnd_signed_nonpos: "r \<le> 0 \<Longrightarrow> fle (rnd_signed F z r) (Finite False 0)"
  by (simp add: rnd_signed_def rnd_nonpos sval_def)

lemma f_of_int_nonpos: "a \<le> 0 \<Longrightarrow> fle (f_of_int F a) (Finite False 0)"
  by (cases "a = 0") (simp_all add: f_of_int_def rnd_nonpos, simp add: rnd_def sval_def)

lemma sval_zero [simp]: "sval s 0 = 0"
  by (simp add: sval_def)

lemma fadd_nonpos:
  assumes "fle x (Finite False 0)" "fle y (Finite False 0)"
  shows "fle (fadd F x y) (Finite False 0)"
  using assms by (cases x; cases y) (auto intro!: rnd_signed_nonpos)

lemma rows_loop_nonpos_aux:
  assumes "rows_loop h w s0 s1 fs a j boxes = Some y"
  shows "\<not> (a \<le> 0 \<and> flt (Finite False 0) s0 \<and> fle j (Finite False 0))"
proof (rule rows_loop.raw_induct
    [where P = "\<lambda>h w s0 s1 fs a j boxes y.
       \<not> (a \<le> 0 \<and> flt (Finite False 0) s0 \<and> fle j (Finite False 0))", OF _ assms])
  fix f h w s0 s1 fs a j boxes y
  assume IH: "\<And>h w s0 s1 fs a j boxes y. f h w s0 s1 fs a j boxes = Some y \<Longrightarrow>
      \<not> (a \<le> 0 \<and> flt (Finite False 0) s0 \<and> fle j (Finite False 0))"
    and step: "(if flt j s0
        then Option.bind (cols_loop h w s1 fs a j (Finite False 0) boxes)
               (f h w s0 s1 fs a (fadd F32 j (f_of_int F32 a)))
        else Some boxes) = Some y"
  show "\<not> (a \<le> 0 \<and> flt (Finite False 0) s0 \<and> fle j (Finite False 0))"
  proof
    assume inv: "a \<le> 0 \<and> flt (Finite False 0) s0 \<and> fle j (Finite False 0)"
    then have lt: "flt j s0" by (blast intro: fle_flt_trans)
    have j': "fle (fadd F32 j (f_of_int F32 a)) (Finite False 0)"
      using inv by (intro fadd_nonpos f_of_int_nonpos) simp_all
    from step lt obtain b where
      "f h w s0 s1 fs a (fadd F32 j (f_of_int F32 a)) b = Some y"
      by (auto simp: bind_eq_Some_conv)
    from IH [OF this] inv j' show False by blast
  qed
qed

lemma generateAnchors_nonpos_stride:
  assumes "3 \<le> length ratios" "2 \<le> length shape" "flt (Finite False 0) (shape ! 0)" "a \<le> 0"
  shows "generateAnchors scales ratios shape fs a = None"
proof -
  have "rows_loop h w (shape ! 0) (shape ! 1) fs a (Finite False 0) [] = None" for h w
  proof (cases "rows_loop h w (shape ! 0) (shape ! 1) fs a (Finite False 0) []")
    case None
    then show ?thesis .
  next
    case (Some y)
    from rows_loop_nonpos_aux [OF this] assms(3,4) show ?thesis by simp
  qed
  moreover have "shape \<noteq> []" using assms(2) by auto
  ultimately show ?thesis using assms by (simp add: generateAnchors_def)
qed

subsection \<open>Rounding is monotone\<close>

lemma rnd_mono:
  assumes "0 \<le> x" "x \<le> y" "1 \<le> prec F"
  shows "fle (rnd F False x) (rnd F False y)"
proof (cases "x = 0")
  case True
  then show ?thesis using assms by (simp add: rnd_def sval_def rmag_nonneg)
next
  case False
  then have "0 < x" using assms(1) by simp
  then have "rmag F x \<le> rmag F y" using assms(2,3) by (rule rmag_mono)
  then show ?thesis using \<open>0 < x\<close> assms(2) by (auto simp: rnd_def sval_def)
qed

lemma rnd_neg_mono:
  assumes "0 \<le> x" "x \<le> y" "1 \<le> prec F"
  shows "fle (rnd F True y) (rnd F True x)"
proof (cases "x = 0")
  case True
  then show ?thesis using assms by (simp add: rnd_def sval_def rmag_nonneg)
next
  case False
  then have "0 < x" using assms(1) by simp
  then have "rmag F x \<le> rmag F y" using assms(2,3) by (rule rmag_mono)
  then show ?thesis using \<open>0 < x\<close> assms(2) by (auto simp: rnd_def sval_def)
qed

lemma rnd_neg_le_pos: "0 \<le> x \<Longrightarrow> 0 \<le> y \<Longrightarrow> fle (rnd F True x) (rnd F False y)"
  using rmag_nonneg [of x F] rmag_nonneg [of y F] by (auto simp: rnd_def sval_def)

lemma rnd_signed_mono:
  assumes "r1 \<le> r2" "1 \<le> prec F"
  shows "fle (rnd_signed F z1 r1) (rnd_signed F z2 r2)"
proof -
  consider "r1 = 0" "r2 = 0" | "r1 = 0" "0 < r2" | "r1 < 0" "r2 = 0" | "r1 < 0" "0 < r2"
    | "0 < r1" "0 < r2" | "r1 < 0" "r2 < 0"
    using assms(1) by linarith
  then show ?thesis
  proof cases
    case 1
    then show ?thesis by (simp add: rnd_signed_def)
  next
    case 2
    have "fle (rnd F z1 0) (rnd F False r2)"
      using 2 rmag_nonneg [of r2 F] by (auto simp: rnd_def sval_def)
    then show ?thesis using 2 by (simp add: rnd_signed_def rnd_def)
  next
    case 3
    have "fle (rnd F True (- r1)) (rnd F z2 0)"
      using 3 rmag_nonneg [of "- r1" F] by (auto simp: rnd_def sval_def)
    then show ?thesis using 3 by (simp add: rnd_signed_def rnd_def)
  next
    case 4
    then show ?thesis using rnd_neg_le_pos [of "- r1" r2 F] by (simp add: rnd_signed_def)
  next
    case 5
    then show ?thesis using rnd_mono [of r1 r2 F] assms by (simp add: rnd_signed_def)
  next
    case 6
    then show ?thesis using rnd_neg_mono [of "- r2" "- r1" F] assms by (simp add: rnd_signed_def)
  qed
qed

subsection \<open>A positive anchor stride advances the counter\<close>

lemma rmag_one: "rmag F32 1 = 1"
  using rmag_of_nat [of 1 F32] by simp

lemma counter_advance:
  assumes "1 \<le> a" "0 \<le> m" "m < 2 ^ 24"
  shows "fadd F32 (Finite False m) (f_of_int F32 a) = Infinity False \<or>
         (\<exists>m'. fadd F32 (Finite False m) (f_of_int F32 a) = Finite False m' \<and>
               of_int \<lfloor>m\<rfloor> + 1 \<le> m')"
proof -
  define a' where "a' = rmag F32 (of_int a)"
  have "(1::rat) \<le> of_int a" using assms(1) by simp
  then have "rmag F32 1 \<le> a'" unfolding a'_def by (intro rmag_mono) simp_all
  then have a': "1 \<le> a'" by (simp add: rmag_one)
  have fa: "f_of_int F32 a = Infinity False \<or> f_of_int F32 a = Finite False a'"
    using assms(1) by (auto simp: f_of_int_def rnd_def a'_def)
  define k where "k = \<lfloor>m\<rfloor>"
  define n where "n = nat k + 1"
  have fl: "0 \<le> k" using assms(2) by (simp add: k_def)
  have "m < of_int (2 ^ 24)" using assms(3) by simp
  then have "k < 2 ^ 24" unfolding k_def by (simp only: floor_less_iff)
  then have n24: "n \<le> 2 ^ 24" using fl by (simp add: n_def)
  have nm: "(of_nat n :: rat) = of_int \<lfloor>m\<rfloor> + 1" using fl by (simp add: n_def k_def)
  have "of_int \<lfloor>m\<rfloor> \<le> m" by simp
  then have le: "(of_nat n :: rat) \<le> m + a'" using a' nm by linarith
  have npos: "0 < (of_nat n :: rat)" by (simp add: n_def)
  from npos le have "rmag F32 (of_nat n) \<le> rmag F32 (m + a')" by (intro rmag_mono) simp_all
  then have big: "of_int \<lfloor>m\<rfloor> + 1 \<le> rmag F32 (m + a')"
    using rmag_of_nat [of n F32] n24 nm by simp
  have pos: "0 < m + a'" using assms(2) a' by linarith
  from fa show ?thesis
  proof
    assume "f_of_int F32 a = Infinity False"
    then show ?thesis by simp
  next
    assume "f_of_int F32 a = Finite False a'"
    then have "fadd F32 (Finite False m) (f_of_int F32 a) = rnd F32 False (m + a')"
      using pos by (simp add: rnd_signed_def sval_def)
    then show ?thesis using big pos by (auto simp: rnd_def)
  qed
qed

lemma flt_Infinity_False [simp]: "flt (Infinity False) s = False"
  by (cases s) simp_all

lemma below_bound:
  assumes "\<not> flt (nat_fp (2 ^ 24)) s" "flt (Finite False m) s"
  shows "m < 2 ^ 24"
proof (rule ccontr)
  assume "\<not> m < 2 ^ 24"
  then have "fle (nat_fp (2 ^ 24)) (Finite False m)" by (simp add: nat_fp_def sval_def)
  from this assms(2) have "flt (nat_fp (2 ^ 24)) s" by (rule fle_flt_trans)
  with assms(1) show False by simp
qed

lemma measure_advance:
  assumes "m < 2 ^ 24" "of_int \<lfloor>m\<rfloor> + 1 \<le> (m' :: rat)"
  shows "nat (2 ^ 24 - \<lfloor>m'\<rfloor>) < nat (2 ^ 24 - \<lfloor>m\<rfloor>)"
proof -
  define k where "k = \<lfloor>m\<rfloor>"
  define k' where "k' = \<lfloor>m'\<rfloor>"
  have "m < of_int (2 ^ 24)" using assms(1) by simp
  then have "k < 2 ^ 24" unfolding k_def by (simp only: floor_less_iff)
  moreover have "of_int (\<lfloor>m\<rfloor> + 1) \<le> m'" using assms(2) by simp
  then have "k + 1 \<le> k'" unfolding k_def k'_def by (simp only: le_floor_iff)
  ultimately have "nat (2 ^ 24 - k') < nat (2 ^ 24 - k)" by simp
  then show ?thesis by (simp only: k_def k'_def)
qed

lemma cols_loop_terminates:
  assumes "1 \<le> a" "\<not> flt (nat_fp (2 ^ 24)) s1" "0 \<le> m"
  shows "\<exists>y. cols_loop h w s1 fs a j (Finite False m) boxes = Some y"
  using assms(3)
proof (induction "nat (2 ^ 24 - \<lfloor>m\<rfloor>)" arbitrary: m boxes rule: less_induct)
  case less
  show ?case
  proof (cases "flt (Finite False m) s1")
    case False
    then show ?thesis by (subst cols_loop.simps) simp
  next
    case True
    with assms(2) have m: "m < 2 ^ 24" by (rule below_bound)
    from counter_advance [OF assms(1) less.prems m] show ?thesis
    proof
      assume "fadd F32 (Finite False m) (f_of_int F32 a) = Infinity False"
      then show ?thesis using True
        by (subst cols_loop.simps, simp, subst cols_loop.simps, simp)
    next
      assume "\<exists>m'. fadd F32 (Finite False m) (f_of_int F32 a) = Finite False m' \<and>
               of_int \<lfloor>m\<rfloor> + 1 \<le> m'"
      then obtain m' where m': "fadd F32 (Finite False m) (f_of_int F32 a) = Finite False m'"
        "of_int \<lfloor>m\<rfloor> + 1 \<le> m'" by blast
      have "(0::rat) \<le> of_int \<lfloor>m\<rfloor>" using less.prems by simp
      then have "0 \<le> m'" using m'(2) by linarith
      from less.hyps [OF measure_advance [OF m m'(2)] this]
      show ?thesis using True by (subst cols_loop.simps) (simp add: m'(1))
    qed
  qed
qed

lemma rows_loop_terminates:
  assumes "1 \<le> a" "\<not> flt (nat_fp (2 ^ 24)) s0" "\<not> flt (nat_fp (2 ^ 24)) s1" "0 \<le> m"
  shows "\<exists>y. rows_loop h w s0 s1 fs a (Finite False m) boxes = Some y"
  using assms(4)
proof (induction "nat (2 ^ 24 - \<lfloor>m\<rfloor>)" arbitrary: m boxes rule: less_induct)
  case less
  show ?case
  proof (cases "flt (Finite False m) s0")
    case False
    then show ?thesis by (subst rows_loop.simps) simp
  next
    case True
    with assms(2) have m: "m < 2 ^ 24" by (rule below_bound)
    from cols_loop_terminates [OF assms(1,3), of 0 h w fs "Finite False m" boxes]
    obtain b where b: "cols_loop h w s1 fs a (Finite False m) (Finite False 0) boxes = Some b"
      by auto
    from counter_advance [OF assms(1) less.prems m] show ?thesis
    proof
      assume "fadd F32 (Finite False m) (f_of_int F32 a) = Infinity False"
      then show ?thesis using True b
        by (subst rows_loop.simps, simp, subst rows_loop.simps, simp)
    next
      assume "\<exists>m'. fadd F32 (Finite False m) (f_of_int F32 a) = Finite False m' \<and>
               of_int \<lfloor>m\<rfloor> + 1 \<le> m'"
      then obtain m' where m': "fadd F32 (Finite False m) (f_of_int F32 a) = Finite False m'"
        "of_int \<lfloor>m\<rfloor> + 1 \<le> m'" by blast
      have "(0::rat) \<le> of_int \<lfloor>m\<rfloor>" using less.prems by simp
      then have "0 \<le> m'" using m'(2) by linarith
      from less.hyps [OF measure_advance [OF m m'(2)] this]
      show ?thesis using True b by (subst rows_loop.simps) (simp add: m'(1))
    qed
  qed
qed

lemma generateAnchors_terminates:
  assumes "1 \<le> a" "3 \<le> length ratios" "2 \<le> length shape"
    "\<not> flt (nat_fp (2 ^ 24)) (shape ! 0)" "\<not> flt (nat_fp (2 ^ 24)) (shape ! 1)"
  shows "\<exists>boxes. generateAnchors scales ratios shape fs a = Some (Inr boxes)"
proof -
  have "shape \<noteq> []" using assms(3) by auto
  then show ?thesis
    using assms(2,3) rows_loop_terminates [OF assms(1,4,5), of 0 _ _ fs "[]"]
    by (auto simp: generateAnchors_def Let_def)
qed

subsection \<open>Evaluating ceilings of quotients\<close>

lemma ceil_div_numeral: "ceil_div (numeral a) (numeral b) = nat (- ((- numeral a) div numeral b))"
  by (simp add: ceil_div_def ceiling_numeral_div)

subsection \<open>The default ratios\<close>

lemma fle_not_flt: "fle a b \<Longrightarrow> \<not> flt b a"
  by (cases a; cases b) (auto simp: sval_def split: if_splits)

lemma length_default_ratios [simp]: "length default_ratios = 3"
  by (simp add: default_ratios_def)

lemma nat_fp_numeral: "nat_fp (numeral n) = Finite False (numeral n)"
  by (simp add: nat_fp_def)

lemma sqrt_default:
  "f_conv F32 (fsqrt F64 (f_conv F64 (f_const F32 (1 / 2)))) = Finite False (11863283 / 16777216)"
  "f_conv F32 (fsqrt F64 (f_conv F64 (f_const F32 1))) = Finite False 1"
  "f_conv F32 (fsqrt F64 (f_conv F64 (f_const F32 2))) = Finite False (11863283 / 8388608)"
  by (simp_all add: fp_eval)

lemma nth_default_ratios:
  "default_ratios ! 0 = f_const F32 (1 / 2)" "default_ratios ! Suc 0 = f_const F32 1"
  "default_ratios ! 2 = f_const F32 2"
  by (simp_all add: default_ratios_def)

lemma upt_3: "[0 ..< 3] = [0, 1, 2]"
  by (simp add: upt_rec)

lemma anchor_sizes_0:
  "anchor_heights 0 default_ratios = [Finite False 0, Finite False 0, Finite False 0]"
  "anchor_widths 0 default_ratios = [Finite False 0, Finite False 0, Finite False 0]"
  by (simp_all add: anchor_heights_def anchor_widths_def upt_3 nth_default_ratios sqrt_default fp_eval)

subsection \<open>Positions in a list of equally long blocks\<close>





subsection \<open>The first cell of the pyramid\<close>



lemma anchor_sizes_32:
  "anchor_heights 32 default_ratios =
     [Finite False (11863283 / 262144), Finite False 32, Finite False (11863283 / 524288)]"
  "anchor_widths 32 default_ratios =
     [Finite False (11863283 / 524288), Finite False 32, Finite False (11863283 / 262144)]"
  by (simp_all add: anchor_heights_def anchor_widths_def upt_3 nth_default_ratios sqrt_default fp_eval)

lemma first_cell_32:
  "cell_boxes (anchor_heights 32 default_ratios) (anchor_widths 32 default_ratios) 4
     (nat_fp 0) (nat_fp 0) =
   [(Finite True (11863283 / 524288), Finite True (11863283 / 1048576),
     Finite False (11863283 / 524288), Finite False (11863283 / 1048576)),
    (Finite True 16, Finite True 16, Finite False 16, Finite False 16),
    (Finite True (11863283 / 1048576), Finite True (11863283 / 524288),
     Finite False (11863283 / 1048576), Finite False (11863283 / 524288))]"
  by (simp add: anchor_sizes_32 cell_boxes_def upt_3 nat_fp_def fp_eval)


subsection \<open>Division by a positive constant is monotone\<close>

lemma rnd_as_signed: "0 \<le> m \<Longrightarrow> rnd F s m = rnd_signed F s (sval s m)"
  by (auto simp: rnd_signed_def sval_def rnd_def)

lemma sval_divide: "sval s (m / c) = sval s m / c"
  by (simp add: sval_def)

lemma fle_Infinity_False: "x \<noteq> NaN \<Longrightarrow> fle x (Infinity False)"
  by (cases x) simp_all

lemma fle_Infinity_True: "x \<noteq> NaN \<Longrightarrow> fle (Infinity True) x"
  by (cases x) simp_all

lemma rnd_not_NaN [simp]: "rnd F s m \<noteq> NaN"
  by (simp add: rnd_def)

lemma rnd_signed_not_NaN [simp]: "rnd_signed F z r \<noteq> NaN"
  by (simp add: rnd_signed_def)

lemma fdiv_mono:
  assumes "fle (Finite s m) (Finite t n)" "0 \<le> m" "0 \<le> n" "0 < c" "1 \<le> prec F"
  shows "fle (fdiv F (Finite s m) (Finite False c)) (fdiv F (Finite t n) (Finite False c))"
proof -
  have "sval s m / c \<le> sval t n / c"
    using assms(1,4) by (simp add: divide_right_mono)
  then have "fle (rnd_signed F s (sval s (m / c))) (rnd_signed F t (sval t (n / c)))"
    unfolding sval_divide using assms(5) by (rule rnd_signed_mono)
  moreover have "0 \<le> m / c" "0 \<le> n / c" using assms(2-4) by simp_all
  ultimately show ?thesis using assms(4) by (simp add: rnd_as_signed)
qed

subsection \<open>The centred pixel conversion\<close>

lemma uint_drop_bit_8: "uint (drop_bit 8 (v :: 32 word)) = uint v div 256"
  by transfer (simp add: drop_bit_eq_div take_bit_eq_mod)

lemma div_256:
  "(0::int) \<le> x \<Longrightarrow> 0 \<le> x div 256"
  "(x::int) < 65536 \<Longrightarrow> x div 256 < 256"
  "(x::int) < 4294967296 \<Longrightarrow> x div 256 < 16777216"
  by presburger+

lemma byte_bounds: "0 \<le> uint (v :: 32 word) div 256" "uint (v :: 32 word) div 256 < 2 ^ 24"
proof -
  show "0 \<le> uint v div 256" by (rule div_256) simp
  have "uint v < 4294967296" using uint_bounded [of v] by simp
  then have "uint v div 256 < 16777216" by (rule div_256)
  then show "uint v div 256 < 2 ^ 24" by simp
qed

lemma half_255: "f_const F32 (255 / 2) = Finite False (255 / 2)"
  by (simp add: fp_eval)

lemma f_of_int_byte: "f_of_int F32 (uint (v :: 32 word) div 256) = Finite False (of_int (uint v div 256))"
  using byte_bounds [of v] rnd_of_int32 [of "uint v div 256" False]
  by (simp add: f_of_int_def)

lemma convert_unfold:
  "convert v =
     fdiv F32 (rnd_signed F32 False (of_int (uint v div 256) - 255 / 2)) (Finite False (255 / 2))"
  by (simp add: convert_def half_255 uint_drop_bit_8 f_of_int_byte fsub_def sval_def)

lemma centred_nonzero: "(of_int n :: rat) - 255 / 2 \<noteq> 0"
proof
  assume "(of_int n :: rat) - 255 / 2 = 0"
  then have "(of_int (2 * n) :: rat) = of_int 255" by simp
  then have "2 * n = 255" by (simp only: of_int_eq_iff)
  then show False by presburger
qed

lemma centred_finite:
  assumes "0 \<le> n" "n < 2 ^ 24"
  shows "\<exists>s m. rnd_signed F32 False (of_int n - 255 / 2) = Finite s m \<and> 0 \<le> m"
proof -
  define r :: rat where "r = of_int n - 255 / 2"
  have r0: "r \<noteq> 0" unfolding r_def by (rule centred_nonzero)
  have "(of_int n :: rat) < of_int (2 ^ 24)" using assms(2) by (simp only: of_int_less_iff)
  moreover have "(0::rat) \<le> of_int n" using assms(1) by simp
  ultimately have "\<bar>r\<bar> \<le> 2 powi 24" by (simp add: r_def abs_le_iff)
  moreover have "0 < \<bar>r\<bar>" using r0 by simp
  moreover have "quantum F32 \<bar>r\<bar> \<le> 24"
  proof -
    have "ilog2 \<bar>r\<bar> \<le> ilog2 (2 powi 24)"
      using \<open>0 < \<bar>r\<bar>\<close> \<open>\<bar>r\<bar> \<le> 2 powi 24\<close> by (rule ilog2_mono)
    also have "ilog2 (2 powi 24) = 24" by (rule ilog2_powi)
    finally show ?thesis by (simp add: quantum_def)
  qed
  ultimately have "rmag F32 \<bar>r\<bar> \<le> 2 powi 24" by (intro rmag_le_pow)
  also have "\<dots> < (2::rat) powi (emax F32 + 1)" by (rule powi_strict_mono) simp
  finally have "rnd F32 (r < 0) \<bar>r\<bar> = Finite (r < 0) (rmag F32 \<bar>r\<bar>)"
    using r0 by (simp add: rnd_def)
  then show ?thesis using r0 rmag_nonneg [of "\<bar>r\<bar>" F32]
    by (simp add: rnd_signed_def r_def)
qed

lemma convert_mono:
  assumes "v \<le> w"
  shows "fle (convert v) (convert w)"
proof -
  have "uint v \<le> uint w" using assms by (simp add: word_le_def)
  then have le: "uint v div 256 \<le> uint w div 256" by (rule zdiv_mono1) simp
  from centred_finite [OF byte_bounds, of v] obtain s m where
    v: "rnd_signed F32 False (of_int (uint v div 256) - 255 / 2) = Finite s m" "0 \<le> m" by blast
  from centred_finite [OF byte_bounds, of w] obtain t n where
    w: "rnd_signed F32 False (of_int (uint w div 256) - 255 / 2) = Finite t n" "0 \<le> n" by blast
  have "(of_int (uint v div 256) :: rat) - 255 / 2 \<le> of_int (uint w div 256) - 255 / 2"
    using le by simp
  then have "fle (rnd_signed F32 False (of_int (uint v div 256) - 255 / 2))
               (rnd_signed F32 False (of_int (uint w div 256) - 255 / 2))"
    by (rule rnd_signed_mono) simp
  then have "fle (Finite s m) (Finite t n)" by (simp only: v w)
  then have "fle (fdiv F32 (Finite s m) (Finite False (255 / 2)))
               (fdiv F32 (Finite t n) (Finite False (255 / 2)))"
    using v(2) w(2) by (rule fdiv_mono) simp_all
  then show ?thesis by (simp only: convert_unfold v w)
qed

text \<open>For a sample below \<open>2^16\<close> the subtraction is exact, so the result is rounded once.\<close>

lemma convert_byte:
  assumes "uint v < 65536"
  shows "convert v = rnd_signed F32 False ((of_int (uint v div 256) - 255 / 2) / (255 / 2))"
proof -
  define n where "n = uint v div 256"
  define k where "k = 2 * n - 255"
  have n: "0 \<le> n" "n < 256" using assms by (simp_all add: n_def div_256)
  have r: "(of_int n :: rat) - 255 / 2 = of_int k * 2 powi (- 1)"
    by (simp add: k_def)
  have k0: "k \<noteq> 0" unfolding k_def by presburger
  have ka: "0 \<le> \<bar>k\<bar>" "\<bar>k\<bar> < 2 ^ prec F32" using n by (simp_all add: k_def)
  have "(of_int \<bar>k\<bar> :: rat) * 2 powi (- 1) \<le> of_int \<bar>k\<bar> * 1"
    by (intro mult_left_mono) simp_all
  also have "(of_int \<bar>k\<bar> :: rat) < of_int (2 ^ 24)" using ka(2) by (simp only: of_int_less_iff) simp
  also have "(of_int (2 ^ 24) :: rat) \<le> 2 powi (emax F32 + 1)" by simp
  finally have "(of_int \<bar>k\<bar> :: rat) * 2 powi (- 1) < 2 powi (emax F32 + 1)" by simp
  with ka have e: "rnd F32 s (of_int \<bar>k\<bar> * 2 powi (- 1)) = Finite s (of_int \<bar>k\<bar> * 2 powi (- 1))" for s
    by (intro rnd_scaled_int) simp_all
  have ab: "\<bar>(of_int k :: rat) * 2 powi (- 1)\<bar> = of_int \<bar>k\<bar> * 2 powi (- 1)"
    by (simp add: abs_mult)
  have neg: "((of_int k :: rat) * 2 powi (- 1) < 0) = (k < 0)" by (simp add: mult_less_0_iff)
  have nz: "((of_int k :: rat) * 2 powi (- 1) = 0) = False" using k0 by simp
  have sub: "rnd_signed F32 False (of_int n - 255 / 2) = Finite (k < 0) (of_int \<bar>k\<bar> * 2 powi (- 1))"
    by (simp only: r rnd_signed_def nz if_False neg ab e)
  have "convert v = rnd F32 (k < 0) (of_int \<bar>k\<bar> * 2 powi (- 1) / (255 / 2))"
    unfolding convert_unfold n_def [symmetric] sub by simp
  also have "\<dots> = rnd_signed F32 (k < 0) (sval (k < 0) (of_int \<bar>k\<bar> * 2 powi (- 1) / (255 / 2)))"
    by (rule rnd_as_signed) simp
  also have "sval (k < 0) (of_int \<bar>k\<bar> * 2 powi (- 1) / (255 / 2)) = (of_int n - 255 / 2) / (255 / 2)"
    unfolding r by (simp add: sval_def abs_if)
  also have "rnd_signed F32 (k < 0) ((of_int n - 255 / 2) / (255 / 2)) =
      rnd_signed F32 False ((of_int n - 255 / 2) / (255 / 2))"
    using centred_nonzero [of n] by (simp add: rnd_signed_def)
  finally show ?thesis by (simp only: n_def)
qed

subsection \<open>The error of one rounding\<close>

lemma rmag_error:
  assumes "0 < m"
  shows "\<bar>rmag F m - m\<bar> \<le> 2 powi quantum F m / 2"
proof -
  define q where "q = quantum F m"
  define x where "x = m / 2 powi q"
  have m: "m = x * 2 powi q" by (simp add: x_def)
  have "\<bar>of_int (rne x) - x\<bar> \<le> 1 / 2"
    using rne_upper [of x] rne_lower [of x] by linarith
  then have "\<bar>of_int (rne x) - x\<bar> * 2 powi q \<le> 1 / 2 * 2 powi q"
    by (intro mult_right_mono) simp_all
  moreover have "rmag F m - m = (of_int (rne x) - x) * 2 powi q"
    unfolding rmag_def q_def [symmetric] x_def [symmetric] by (simp add: m algebra_simps)
  ultimately show ?thesis by (simp add: abs_mult q_def)
qed

lemma rnd_signed_within:
  assumes "r \<noteq> 0" "\<bar>r\<bar> < 2 powi b" "qmin F \<le> b - int (prec F)" "b \<le> emax F" "1 \<le> prec F"
  shows "fp_within (rnd_signed F z r) r (2 powi (b - int (prec F)) / 2)"
proof -
  have pos: "0 < \<bar>r\<bar>" using assms(1) by simp
  from pos assms(2) have "ilog2 \<bar>r\<bar> < b" by (rule ilog2_less)
  then have q: "quantum F \<bar>r\<bar> \<le> b - int (prec F)"
    using assms(3) by (simp add: quantum_def)
  then have qb: "quantum F \<bar>r\<bar> \<le> b" using assms(5) by linarith
  have "rmag F \<bar>r\<bar> \<le> 2 powi b"
    using pos assms(2) qb by (intro rmag_le_pow) simp_all
  also have "\<dots> < (2::rat) powi (emax F + 1)" using assms(4) by (intro powi_strict_mono) simp
  finally have fin: "rnd F (r < 0) \<bar>r\<bar> = Finite (r < 0) (rmag F \<bar>r\<bar>)"
    using assms(1) by (simp add: rnd_def)
  have "\<bar>rmag F \<bar>r\<bar> - \<bar>r\<bar>\<bar> \<le> 2 powi quantum F \<bar>r\<bar> / 2" by (rule rmag_error [OF pos])
  also have "\<dots> \<le> 2 powi (b - int (prec F)) / 2"
    using q by (simp add: powi_mono divide_right_mono)
  finally have e: "\<bar>rmag F \<bar>r\<bar> - \<bar>r\<bar>\<bar> \<le> 2 powi (b - int (prec F)) / 2" .
  have "\<bar>sval (r < 0) (rmag F \<bar>r\<bar>) - r\<bar> = \<bar>rmag F \<bar>r\<bar> - \<bar>r\<bar>\<bar>"
    by (simp add: sval_def abs_if)
  then show ?thesis using e assms(1) by (simp add: rnd_signed_def fin)
qed

subsection \<open>The mean-subtracted pixel conversion\<close>

lemma caffe_means:
  "f_const F32 (103939 / 1000) = Finite False (13623493 / 131072)"
  "f_const F32 (116779 / 1000) = Finite False (15306457 / 131072)"
  "f_const F32 (12368 / 100) = Finite False (16210985 / 131072)"
  by (simp_all add: fp_eval)

lemma convertCaffe_byte:
  "convertCaffe v = Finite False (of_int (uint v div 256))"
  by (simp add: convertCaffe_def uint_drop_bit_8 f_of_int_byte)

lemma mean_subtracted_within:
  assumes "uint v < 65536" "(c::rat) \<notin> \<int>" "0 \<le> c" "c \<le> 128" "\<bar>c - d\<bar> \<le> 1 / 262144"
  shows "fp_within (fsub F32 (convertCaffe v) (Finite False c)) (of_int (uint v div 256) - d) (1 / 50000)"
proof -
  define n where "n = uint v div 256"
  define r :: rat where "r = of_int n - c"
  have n: "0 \<le> n" "n < 256" using assms(1) by (simp_all add: n_def div_256)
  have r0: "r \<noteq> 0"
  proof
    assume "r = 0"
    then have "c = of_int n" by (simp add: r_def)
    then have "c \<in> \<int>" by (simp only: Ints_of_int)
    with assms(2) show False by simp
  qed
  have "(of_int n :: rat) < of_int 256" using n(2) by (simp only: of_int_less_iff)
  moreover have "(0::rat) \<le> of_int n" using n(1) by simp
  ultimately have "\<bar>r\<bar> < 2 powi 8" using assms(3,4) by (simp add: r_def abs_less_iff)
  with r0 have "fp_within (rnd_signed F32 (False \<and> True) r) r (2 powi (8 - int (prec F32)) / 2)"
    by (intro rnd_signed_within) simp_all
  then obtain s m where sm: "rnd_signed F32 (False \<and> True) r = Finite s m"
    "\<bar>sval s m - r\<bar> \<le> 1 / 131072"
    by (cases "rnd_signed F32 (False \<and> True) r") simp_all
  have "\<bar>sval s m - (of_int n - d)\<bar> \<le> \<bar>sval s m - r\<bar> + \<bar>c - d\<bar>"
    unfolding r_def by linarith
  also have "\<dots> \<le> 1 / 131072 + 1 / 262144" using sm(2) assms(5) by linarith
  also have "\<dots> \<le> 1 / 50000" by simp
  finally have "fp_within (Finite s m) (of_int n - d) (1 / 50000)" by simp
  moreover have "fsub F32 (convertCaffe v) (Finite False c) = Finite s m"
    using sm(1) by (simp add: convertCaffe_byte fsub_def sval_def r_def n_def)
  ultimately show ?thesis by (simp add: n_def)
qed

lemma not_int_odd_over_pow2:
  assumes "odd a" "0 < k"
  shows "(of_int a :: rat) / 2 ^ k \<notin> \<int>"
proof
  assume "(of_int a :: rat) / 2 ^ k \<in> \<int>"
  then obtain z where "(of_int a :: rat) / 2 ^ k = of_int z" by (auto elim: Ints_cases)
  then have "(of_int a :: rat) = of_int (z * 2 ^ k)" by (simp add: field_simps)
  then have "a = z * 2 ^ k" by (simp only: of_int_eq_iff)
  then have "even a" using assms(2) by simp
  with assms(1) show False by simp
qed

subsection \<open>Shapes and entries of tensors\<close>

lemma shape_of_map_upt:
  assumes "0 < n"
  shows "shape_of (Arr (map f [0 ..< n])) = n # shape_of (f 0)"
  using assms by (cases n) (simp_all add: upt_conv_Cons del: upt_Suc)

lemma elem_map_upt:
  assumes "i < n"
  shows "elem (Arr (map f [0 ..< n])) (i # is) = elem (f i) is"
  using assms by simp

subsection \<open>The third input and the shape of the anchors\<close>

lemma makeInputs_third:
  assumes "\<not> (0 < Dy (Bounds (Scaled img 800 800)) \<and> Dx (Bounds (Scaled img 800 800)) < 0)"
  shows "third_tensor (makeInputs Scaled img) =
           Inr (Tensor (Arr [Arr (map Scalar
             [f_of_int F32 (MinY (Bounds (Scaled img 800 800))),
              f_of_int F32 (MinX (Bounds (Scaled img 800 800))),
              f_of_int F32 (MaxY (Bounds (Scaled img 800 800))),
              f_of_int F32 (MaxX (Bounds (Scaled img 800 800)))])]))"
  using assms
  by (auto simp: third_tensor_def makeInputs_def Let_def imageToTensor_def composeImageMeta_def
      NewTensor_def)

lemma shape_of_anchors_val:
  assumes "bs \<noteq> []"
  shows "shape_of (anchors_val [bs]) = [1, length bs, 4]"
  using assms by (cases bs) (auto simp: anchors_val_def box_val_def)

subsection \<open>Bounds on rounded values\<close>

lemma rmag_pow:
  assumes "qmin F \<le> a" "1 \<le> prec F"
  shows "rmag F (2 powi a) = 2 powi a"
proof -
  have "(1::int) < 2 ^ prec F" using assms(2) by (intro one_less_power) simp_all
  with rmag_scaled_int [of 1 F a] assms(1) show ?thesis by simp
qed

lemma rnd_between_pows:
  assumes "2 powi a \<le> m" "m \<le> 2 powi b" "qmin F \<le> a" "b \<le> emax F" "1 \<le> prec F"
  shows "\<exists>r. rnd F s m = Finite s r \<and> 2 powi a \<le> r \<and> r \<le> 2 powi b"
proof -
  have m: "0 < m" using assms(1) powi_pos [of a] by linarith
  have ab: "a \<le> b"
  proof (rule ccontr)
    assume "\<not> a \<le> b"
    then have "(2::rat) powi b < 2 powi a" by (intro powi_strict_mono) simp
    with assms(1,2) show False by linarith
  qed
  have "rmag F (2 powi a) \<le> rmag F m" using assms(1,5) by (intro rmag_mono) simp_all
  then have lo: "2 powi a \<le> rmag F m" using assms(3,5) by (simp add: rmag_pow)
  have "rmag F m \<le> rmag F (2 powi b)" using m assms(2,5) by (intro rmag_mono)
  then have hi: "rmag F m \<le> 2 powi b" using assms(3,5) ab by (simp add: rmag_pow)
  have "(2::rat) powi b < 2 powi (emax F + 1)" using assms(4) by (intro powi_strict_mono) simp
  with hi have "rmag F m < 2 powi (emax F + 1)" by linarith
  then show ?thesis using m lo hi by (simp add: rnd_def)
qed

lemma rnd_below_pow:
  assumes "0 \<le> m" "m \<le> 2 powi b" "qmin F \<le> b" "b \<le> emax F" "1 \<le> prec F"
  shows "\<exists>r. rnd F s m = Finite s r \<and> 0 \<le> r \<and> r \<le> 2 powi b"
proof (cases "m = 0")
  case True
  then show ?thesis by (simp add: rnd_def less_imp_le)
next
  case False
  then have m: "0 < m" using assms(1) by simp
  have "rmag F m \<le> rmag F (2 powi b)" using m assms(2,5) by (intro rmag_mono)
  then have hi: "rmag F m \<le> 2 powi b" using assms(3,5) by (simp add: rmag_pow)
  have "(2::rat) powi b < 2 powi (emax F + 1)" using assms(4) by (intro powi_strict_mono) simp
  with hi have "rmag F m < 2 powi (emax F + 1)" by linarith
  then show ?thesis using m hi rmag_nonneg [of m F] by (simp add: rnd_def)
qed

subsection \<open>Bounds on the rounded square root\<close>

lemma ilog2_ge: "2 powi a \<le> m \<Longrightarrow> a \<le> ilog2 m"
  using ilog2_mono [of "2 powi a" m] by simp

lemma ilog2_le: "0 < m \<Longrightarrow> m \<le> 2 powi b \<Longrightarrow> ilog2 m \<le> b"
  using ilog2_mono [of m "2 powi b"] by simp

lemma isqrt_bounds:
  assumes "2 ^ 104 \<le> Y" "Y < 2 ^ 106"
  shows "2 ^ 52 \<le> isqrt Y \<and> isqrt Y < 2 ^ 53"
proof -
  have Y: "0 \<le> Y" using assms(1) by simp
  note c = isqrt_correct [OF Y]
  have "\<not> isqrt Y < 2 ^ 52"
  proof
    assume "isqrt Y < 2 ^ 52"
    then have "isqrt Y + 1 \<le> 2 ^ 52" by simp
    then have "(isqrt Y + 1) * (isqrt Y + 1) \<le> 2 ^ 52 * 2 ^ 52"
      using c by (intro mult_mono) simp_all
    with c assms(1) show False by simp
  qed
  moreover have "\<not> 2 ^ 53 \<le> isqrt Y"
  proof
    assume "2 ^ 53 \<le> isqrt Y"
    then have "2 ^ 53 * 2 ^ 53 \<le> isqrt Y * isqrt Y"
      by (intro mult_mono) simp_all
    with c assms(2) show False by simp
  qed
  ultimately show ?thesis by simp
qed

lemma rnd_sqrt_bounds:
  assumes "2 powi (- 149) \<le> m" "m \<le> 2 powi 128"
  shows "\<exists>r. rnd_sqrt F64 m = Finite False r \<and> 2 powi (- 75) \<le> r \<and> r \<le> 2 powi 65"
proof -
  have m: "0 < m" using assms(1) powi_pos [of "- 149"] by linarith
  define e where "e = ilog2 m"
  define e2 where "e2 = e div 2"
  define q where "q = e2 - 52"
  define y where "y = m / 2 powi (2 * q)"
  define k where "k = isqrt \<lfloor>y\<rfloor>"
  define h where "h = ((of_int k :: rat) + 1 / 2) * (of_int k + 1 / 2)"
  define n where "n = (if y < h then k else if h < y then k + 1 else if even k then k else k + 1)"
  have e: "- 149 \<le> e" "e \<le> 128"
    using ilog2_ge [OF assms(1)] ilog2_le [OF m assms(2)] by (simp_all add: e_def)
  have e2: "- 75 \<le> e2" "e2 \<le> 64" "2 * e2 \<le> e" "e \<le> 2 * e2 + 1"
    using e unfolding e2_def by presburger+
  have qmax: "max (ilog2 m div 2 - (int (prec F64) - 1)) (qmin F64) = q"
    using e2(1) by (simp add: q_def e2_def e_def)
  have "2 powi e \<le> m" "m < 2 powi (e + 1)"
    unfolding e_def using m by (rule ilog2_lower, rule ilog2_upper)
  then have "2 powi e / 2 powi (2 * q) \<le> y" "y < 2 powi (e + 1) / 2 powi (2 * q)"
    unfolding y_def by (simp_all add: divide_right_mono divide_strict_right_mono)
  then have "2 powi (e - 2 * q) \<le> y" "y < 2 powi (e + 1 - 2 * q)"
    by (simp_all add: powi_diff)
  moreover have "(2::rat) powi 104 \<le> 2 powi (e - 2 * q)"
    using e2(3) by (intro powi_mono) (simp add: q_def)
  moreover have "(2::rat) powi (e + 1 - 2 * q) \<le> 2 powi 106"
    using e2(4) by (intro powi_mono) (simp add: q_def)
  ultimately have y: "of_int (2 ^ 104) \<le> y" "y < of_int (2 ^ 106)"
    by simp_all
  have "2 ^ 104 \<le> \<lfloor>y\<rfloor>" using y(1) by (simp only: le_floor_iff)
  moreover have "\<lfloor>y\<rfloor> < 2 ^ 106" using y(2) by (simp only: floor_less_iff)
  ultimately have k: "2 ^ 52 \<le> k" "k < 2 ^ 53" unfolding k_def using isqrt_bounds by blast+
  have n: "2 ^ 52 \<le> n" "n \<le> 2 ^ 53" using k by (auto simp: n_def)
  define r where "r = (of_int n :: rat) * 2 powi q"
  have "(of_int (2 ^ 52) :: rat) \<le> of_int n" "(of_int n :: rat) \<le> of_int (2 ^ 53)"
    using n by (simp_all only: of_int_le_iff)
  moreover have "(of_int (2 ^ 52) :: rat) = 2 powi 52" "(of_int (2 ^ 53) :: rat) = 2 powi 53"
    by simp_all
  ultimately have "(2::rat) powi 52 \<le> of_int n" "(of_int n :: rat) \<le> 2 powi 53"
    by (simp_all only:)
  then have "2 powi 52 * 2 powi q \<le> r" "r \<le> 2 powi 53 * 2 powi q"
    unfolding r_def by (intro mult_right_mono; simp)+
  moreover have "(2::rat) powi 52 * 2 powi q = 2 powi e2"
    unfolding q_def by (simp only: powi_add [symmetric]) simp
  moreover have "(2::rat) powi 53 * 2 powi q = 2 powi (e2 + 1)"
    unfolding q_def by (simp only: powi_add [symmetric]) (simp add: add.commute)
  ultimately have r: "2 powi e2 \<le> r" "r \<le> 2 powi (e2 + 1)"
    by (simp_all only:)
  have lo: "2 powi (- 75) \<le> r"
    using r(1) powi_mono [OF e2(1)] by linarith
  have "(2::rat) powi (e2 + 1) \<le> 2 powi 65" using e2(2) by (intro powi_mono) simp
  with r(2) have hi: "r \<le> 2 powi 65" by linarith
  have "(2::rat) powi 65 < 2 powi (emax F64 + 1)" by (intro powi_strict_mono) simp
  with hi have fin: "\<not> 2 powi (emax F64 + 1) \<le> r" by linarith
  have "rnd_sqrt F64 m = Finite False r"
    unfolding rnd_sqrt_def qmax Let_def y_def [symmetric] k_def [symmetric] h_def [symmetric]
      n_def [symmetric] r_def [symmetric]
    using fin by simp
  then show ?thesis using lo hi by blast
qed

lemma positive_f32_bounds:
  assumes "positive_f32 (Finite s m)"
  shows "\<not> s \<and> 2 powi (- 149) \<le> m \<and> m \<le> 2 powi 128"
proof -
  from assms have a: "\<not> s \<and> 0 < m \<and> rnd F32 s m = Finite s m"
    by (cases s) simp_all
  then have s: "\<not> s" and m: "0 < m" and r: "rnd F32 s m = Finite s m" by blast+
  from r m have eq: "rmag F32 m = m" and lt: "rmag F32 m < 2 powi 128"
    by (auto simp: rnd_def split: if_splits)
  define q where "q = quantum F32 m"
  have q: "- 149 \<le> q" by (simp add: q_def quantum_def)
  have "0 < rne (m / 2 powi q)"
  proof (rule ccontr)
    assume "\<not> 0 < rne (m / 2 powi q)"
    then have "(of_int (rne (m / 2 powi q)) :: rat) \<le> 0" by simp
    then have "rmag F32 m \<le> 0"
      unfolding rmag_def q_def [symmetric] by (simp add: mult_le_0_iff)
    with eq m show False by simp
  qed
  then have "(1::rat) \<le> of_int (rne (m / 2 powi q))" by linarith
  then have "1 * 2 powi q \<le> rmag F32 m"
    unfolding rmag_def q_def [symmetric] by (intro mult_right_mono) simp_all
  moreover have "(2::rat) powi (- 149) \<le> 2 powi q" using q by (rule powi_mono)
  ultimately have "2 powi (- 149) \<le> m" using eq by simp
  then show ?thesis using s eq lt by simp
qed

lemma sqrt32_bounds:
  assumes "positive_f32 x"
  shows "\<exists>q. f_conv F32 (fsqrt F64 (f_conv F64 x)) = Finite False q \<and>
             2 powi (- 75) \<le> q \<and> q \<le> 2 powi 65"
proof -
  from assms obtain s m where x: "x = Finite s m" by (cases x) simp_all
  from positive_f32_bounds [OF assms [unfolded x]]
  have s: "s = False" and m: "2 powi (- 149) \<le> m" "m \<le> 2 powi 128" by simp_all
  from rnd_between_pows [OF m, of F64 False] obtain m1 where
    m1: "rnd F64 False m = Finite False m1" "2 powi (- 149) \<le> m1" "m1 \<le> 2 powi 128"
    by auto
  have m1pos: "m1 \<noteq> 0" using m1(2) powi_pos [of "- 149"] by linarith
  from rnd_sqrt_bounds [OF m1(2,3)] obtain r where
    r: "rnd_sqrt F64 m1 = Finite False r" "2 powi (- 75) \<le> r" "r \<le> 2 powi 65" by blast
  from rnd_between_pows [OF r(2,3), of F32 False] obtain q where
    q: "rnd F32 False r = Finite False q" "2 powi (- 75) \<le> q" "q \<le> 2 powi 65"
    by auto
  have "f_conv F32 (fsqrt F64 (f_conv F64 x)) = Finite False q"
    by (simp add: x s m1(1) m1pos r(1) q(1))
  then show ?thesis using q(2,3) by blast
qed

subsection \<open>Anchor sizes are finite and non-negative\<close>

lemma f_of_int_scale:
  assumes "0 \<le> n" "n \<le> 2 ^ 52"
  shows "\<exists>a. f_of_int F32 n = Finite False a \<and> 0 \<le> a \<and> a \<le> 2 powi 52"
proof -
  have "(of_int n :: rat) \<le> of_int (2 ^ 52)" using assms(2) by (simp only: of_int_le_iff)
  moreover have "(of_int (2 ^ 52) :: rat) = 2 powi 52" by simp
  ultimately have "(of_int n :: rat) \<le> 2 powi 52" by (simp only:)
  moreover have "(0::rat) \<le> of_int n" using assms(1) by simp
  ultimately have "\<exists>r. rnd F32 False (of_int n) = Finite False r \<and> 0 \<le> r \<and> r \<le> 2 powi 52"
    by (intro rnd_below_pow) simp_all
  then show ?thesis using assms(1) by (simp add: f_of_int_def)
qed

lemma f_of_int_go_int:
  assumes "- (2 ^ 63) \<le> n" "n < 2 ^ 63"
  shows "\<exists>a. f_of_int F32 n = Finite (n < 0) a \<and> 0 \<le> a"
proof -
  have "\<bar>n\<bar> \<le> 2 ^ 63" using assms by simp
  then have "(of_int \<bar>n\<bar> :: rat) \<le> of_int (2 ^ 63)" by (simp only: of_int_le_iff)
  moreover have "(of_int (2 ^ 63) :: rat) = 2 powi 63" by simp
  ultimately have "(of_int \<bar>n\<bar> :: rat) \<le> 2 powi 63" by (simp only:)
  moreover have "(0::rat) \<le> of_int \<bar>n\<bar>" by simp
  ultimately have "\<exists>r. rnd F32 (n < 0) (of_int \<bar>n\<bar>) = Finite (n < 0) r \<and> 0 \<le> r \<and> r \<le> 2 powi 63"
    by (intro rnd_below_pow) simp_all
  then show ?thesis by (auto simp: f_of_int_def)
qed

lemma half_f32: "f_const F32 (1 / 2) = Finite False (1 / 2)"
  by (simp add: fp_eval)

lemma half_size_finite:
  assumes "0 \<le> a" "a \<le> 2 powi 52" "2 powi (- 75) \<le> q" "q \<le> 2 powi 65"
  shows "\<exists>h. fmul F32 (f_const F32 (1 / 2)) (fdiv F32 (Finite False a) (Finite False q)) =
               Finite False h \<and> 0 \<le> h"
    and "\<exists>w. fmul F32 (f_const F32 (1 / 2)) (fmul F32 (Finite False a) (Finite False q)) =
               Finite False w \<and> 0 \<le> w"
proof -
  have q: "0 < q" using assms(3) powi_pos [of "- 75"] by linarith
  have "a / q \<le> 2 powi 52 / 2 powi (- 75)"
    using assms q by (intro frac_le) simp_all
  also have "\<dots> = 2 powi 127" by (simp only: powi_diff [symmetric]) simp
  finally have "a / q \<le> 2 powi 127" .
  moreover have "0 \<le> a / q" using assms(1) q by simp
  ultimately obtain h where h: "rnd F32 False (a / q) = Finite False h" "0 \<le> h" "h \<le> 2 powi 127"
    using rnd_below_pow [of "a / q" 127 F32 False] by auto
  have "1 / 2 * h \<le> 2 powi 127" using h(2,3) by linarith
  moreover have "0 \<le> 1 / 2 * h" using h(2) by simp
  ultimately obtain hh where "rnd F32 False (1 / 2 * h) = Finite False hh" "0 \<le> hh"
    using rnd_below_pow [of "1 / 2 * h" 127 F32 False] by auto
  then show "\<exists>h. fmul F32 (f_const F32 (1 / 2)) (fdiv F32 (Finite False a) (Finite False q)) =
               Finite False h \<and> 0 \<le> h"
    using q h(1) by (simp add: half_f32)
  have "a * q \<le> 2 powi 52 * 2 powi 65"
    using assms q by (intro mult_mono) simp_all
  also have "\<dots> = 2 powi 117" by (simp only: powi_add [symmetric]) simp
  finally have "a * q \<le> 2 powi 117" .
  moreover have "0 \<le> a * q" using assms(1) q by simp
  ultimately obtain w where w: "rnd F32 False (a * q) = Finite False w" "0 \<le> w" "w \<le> 2 powi 117"
    using rnd_below_pow [of "a * q" 117 F32 False] by auto
  have "1 / 2 * w \<le> 2 powi 117" using w(2,3) by linarith
  moreover have "0 \<le> 1 / 2 * w" using w(2) by simp
  ultimately obtain hw where "rnd F32 False (1 / 2 * w) = Finite False hw" "0 \<le> hw"
    using rnd_below_pow [of "1 / 2 * w" 117 F32 False] by auto
  then show "\<exists>w. fmul F32 (f_const F32 (1 / 2)) (fmul F32 (Finite False a) (Finite False q)) =
               Finite False w \<and> 0 \<le> w"
    using w(1) by (simp add: half_f32)
qed

lemma half_sizes:
  assumes "0 \<le> scales" "scales \<le> 2 ^ 52" "positive_f32 (ratios ! k)" "k < 3"
  shows "\<exists>h. fmul F32 (f_const F32 (1 / 2)) (anchor_heights scales ratios ! k) = Finite False h \<and> 0 \<le> h"
    and "\<exists>w. fmul F32 (f_const F32 (1 / 2)) (anchor_widths scales ratios ! k) = Finite False w \<and> 0 \<le> w"
proof -
  from f_of_int_scale [OF assms(1,2)] obtain a where
    a: "f_of_int F32 scales = Finite False a" "0 \<le> a" "a \<le> 2 powi 52" by blast
  from sqrt32_bounds [OF assms(3)] obtain q where
    q: "f_conv F32 (fsqrt F64 (f_conv F64 (ratios ! k))) = Finite False q"
    "2 powi (- 75) \<le> q" "q \<le> 2 powi 65" by blast
  have hk: "anchor_heights scales ratios ! k = fdiv F32 (Finite False a) (Finite False q)"
    using assms(4) by (simp add: anchor_heights_def a(1) q(1) del: upt_Suc)
  have wk: "anchor_widths scales ratios ! k = fmul F32 (Finite False a) (Finite False q)"
    using assms(4) by (simp add: anchor_widths_def a(1) q(1) del: upt_Suc)
  show "\<exists>h. fmul F32 (f_const F32 (1 / 2)) (anchor_heights scales ratios ! k) = Finite False h \<and> 0 \<le> h"
    unfolding hk by (rule half_size_finite [OF a(2,3) q(2,3)])
  show "\<exists>w. fmul F32 (f_const F32 (1 / 2)) (anchor_widths scales ratios ! k) = Finite False w \<and> 0 \<le> w"
    unfolding wk by (rule half_size_finite [OF a(2,3) q(2,3)])
qed

subsection \<open>One axis of a box\<close>

lemma axis_ordered:
  assumes "c \<noteq> NaN" "0 \<le> a"
  shows "fle (fsub F32 c (Finite False a)) (fadd F32 c (Finite False a))"
proof (cases c)
  case (Finite s m)
  have "sval s m + sval True a \<le> sval s m + sval False a"
    using assms(2) by (simp add: sval_def)
  then have "fle (rnd_signed F32 (s \<and> True) (sval s m + sval True a))
               (rnd_signed F32 (s \<and> False) (sval s m + sval False a))"
    by (rule rnd_signed_mono) simp
  then show ?thesis by (simp add: Finite fsub_def)
next
  case (Infinity s)
  then show ?thesis by (simp add: fsub_def)
next
  case NaN
  with assms(1) show ?thesis by simp
qed

lemma centre_not_NaN:
  assumes "- (2 ^ 63) \<le> fs" "fs < 2 ^ 63"
  shows "fmul F32 (Finite False m) (f_of_int F32 fs) \<noteq> NaN"
proof -
  from f_of_int_go_int [OF assms] obtain a where "f_of_int F32 fs = Finite (fs < 0) a" by blast
  then show ?thesis by simp
qed

lemma cell_boxes_ordered:
  assumes "0 \<le> scales" "scales \<le> 2 ^ 52" "- (2 ^ 63) \<le> fs" "fs < 2 ^ 63"
    "positive_f32 (ratios ! 0)" "positive_f32 (ratios ! 1)" "positive_f32 (ratios ! 2)"
    "b \<in> set (cell_boxes (anchor_heights scales ratios) (anchor_widths scales ratios) fs
               (Finite False mj) (Finite False mi))"
  shows "box_ordered b"
proof -
  from assms(8) obtain k where k: "k < 3" and
    b: "b = (fsub F32 (fmul F32 (Finite False mj) (f_of_int F32 fs))
               (fmul F32 (f_const F32 (1 / 2)) (anchor_heights scales ratios ! k)),
             fsub F32 (fmul F32 (Finite False mi) (f_of_int F32 fs))
               (fmul F32 (f_const F32 (1 / 2)) (anchor_widths scales ratios ! k)),
             fadd F32 (fmul F32 (Finite False mj) (f_of_int F32 fs))
               (fmul F32 (f_const F32 (1 / 2)) (anchor_heights scales ratios ! k)),
             fadd F32 (fmul F32 (Finite False mi) (f_of_int F32 fs))
               (fmul F32 (f_const F32 (1 / 2)) (anchor_widths scales ratios ! k)))"
    by (auto simp: cell_boxes_def simp del: upt_Suc)
  have "k = 0 \<or> k = 1 \<or> k = 2" using k by linarith
  then have "positive_f32 (ratios ! k)"
    using assms(5-7) by auto
  from half_sizes [OF assms(1,2) this k] obtain h w where
    h: "fmul F32 (f_const F32 (1 / 2)) (anchor_heights scales ratios ! k) = Finite False h" "0 \<le> h"
    and w: "fmul F32 (f_const F32 (1 / 2)) (anchor_widths scales ratios ! k) = Finite False w" "0 \<le> w"
    by blast
  show ?thesis
    unfolding b box_ordered_def h(1) w(1)
    using axis_ordered [OF centre_not_NaN [OF assms(3,4), of mj] h(2)]
      axis_ordered [OF centre_not_NaN [OF assms(3,4), of mi] w(2)]
    by simp
qed

subsection \<open>Which boxes a run of the loops appends\<close>

lemma counter_next:
  assumes "1 \<le> a" "0 \<le> m"
  shows "fadd F32 (Finite False m) (f_of_int F32 a) = Infinity False \<or>
         (\<exists>m'. fadd F32 (Finite False m) (f_of_int F32 a) = Finite False m' \<and> 0 \<le> m')"
proof -
  define a' where "a' = rmag F32 (of_int a)"
  have a': "0 \<le> a'" unfolding a'_def using assms(1) by (intro rmag_nonneg) simp
  have fa: "f_of_int F32 a = Infinity False \<or> f_of_int F32 a = Finite False a'"
    using assms(1) by (auto simp: f_of_int_def rnd_def a'_def)
  then show ?thesis
  proof
    assume "f_of_int F32 a = Infinity False"
    then show ?thesis by simp
  next
    assume "f_of_int F32 a = Finite False a'"
    then have "fadd F32 (Finite False m) (f_of_int F32 a) = rnd_signed F32 False (m + a')"
      by (simp add: sval_def)
    moreover have "0 \<le> m + a'" using assms(2) a' by simp
    ultimately show ?thesis
      using rmag_nonneg [of "m + a'" F32] by (auto simp: rnd_signed_def rnd_def)
  qed
qed

lemma cols_loop_boxes:
  assumes "cols_loop h w s1 fs a j i acc = Some y"
  shows "1 \<le> a \<longrightarrow> (i = Infinity False \<or> (\<exists>m. i = Finite False m \<and> 0 \<le> m)) \<longrightarrow>
         (\<forall>b \<in> set y. b \<in> set acc \<or>
            (\<exists>m. 0 \<le> m \<and> b \<in> set (cell_boxes h w fs j (Finite False m))))"
proof (rule cols_loop.raw_induct
    [where P = "\<lambda>h w s1 fs a j i acc y.
       1 \<le> a \<longrightarrow> (i = Infinity False \<or> (\<exists>m. i = Finite False m \<and> 0 \<le> m)) \<longrightarrow>
         (\<forall>b \<in> set y. b \<in> set acc \<or>
            (\<exists>m. 0 \<le> m \<and> b \<in> set (cell_boxes h w fs j (Finite False m))))", OF _ assms])
  fix f h w s1 fs a j i acc y
  assume IH: "\<And>h w s1 fs a j i acc y. f h w s1 fs a j i acc = Some y \<Longrightarrow>
      1 \<le> a \<longrightarrow> (i = Infinity False \<or> (\<exists>m. i = Finite False m \<and> 0 \<le> m)) \<longrightarrow>
         (\<forall>b \<in> set y. b \<in> set acc \<or>
            (\<exists>m. 0 \<le> m \<and> b \<in> set (cell_boxes h w fs j (Finite False m))))"
    and step: "(if flt i s1
        then f h w s1 fs a j (fadd F32 i (f_of_int F32 a)) (acc @ cell_boxes h w fs j i)
        else Some acc) = Some y"
  show "1 \<le> a \<longrightarrow> (i = Infinity False \<or> (\<exists>m. i = Finite False m \<and> 0 \<le> m)) \<longrightarrow>
         (\<forall>b \<in> set y. b \<in> set acc \<or>
            (\<exists>m. 0 \<le> m \<and> b \<in> set (cell_boxes h w fs j (Finite False m))))"
  proof (intro impI)
    assume a: "1 \<le> a" and i: "i = Infinity False \<or> (\<exists>m. i = Finite False m \<and> 0 \<le> m)"
    show "\<forall>b \<in> set y. b \<in> set acc \<or>
            (\<exists>m. 0 \<le> m \<and> b \<in> set (cell_boxes h w fs j (Finite False m)))"
    proof (cases "flt i s1")
      case False
      with step show ?thesis by simp
    next
      case True
      then have "i \<noteq> Infinity False" by auto
      with i obtain m where m: "i = Finite False m" "0 \<le> m" by blast
      from step True have run:
        "f h w s1 fs a j (fadd F32 i (f_of_int F32 a)) (acc @ cell_boxes h w fs j i) = Some y"
        by simp
      have "fadd F32 i (f_of_int F32 a) = Infinity False \<or>
            (\<exists>m'. fadd F32 i (f_of_int F32 a) = Finite False m' \<and> 0 \<le> m')"
        unfolding m(1) using a m(2) by (rule counter_next)
      with IH [OF run] a have
        "\<forall>b \<in> set y. b \<in> set (acc @ cell_boxes h w fs j i) \<or>
            (\<exists>m. 0 \<le> m \<and> b \<in> set (cell_boxes h w fs j (Finite False m)))"
        by blast
      then show ?thesis using m by auto
    qed
  qed
qed

lemma rows_loop_boxes:
  assumes "rows_loop h w s0 s1 fs a j acc = Some y"
  shows "1 \<le> a \<longrightarrow> (j = Infinity False \<or> (\<exists>m. j = Finite False m \<and> 0 \<le> m)) \<longrightarrow>
         (\<forall>b \<in> set y. b \<in> set acc \<or>
            (\<exists>mj mi. 0 \<le> mj \<and> 0 \<le> mi \<and>
               b \<in> set (cell_boxes h w fs (Finite False mj) (Finite False mi))))"
proof (rule rows_loop.raw_induct
    [where P = "\<lambda>h w s0 s1 fs a j acc y.
       1 \<le> a \<longrightarrow> (j = Infinity False \<or> (\<exists>m. j = Finite False m \<and> 0 \<le> m)) \<longrightarrow>
         (\<forall>b \<in> set y. b \<in> set acc \<or>
            (\<exists>mj mi. 0 \<le> mj \<and> 0 \<le> mi \<and>
               b \<in> set (cell_boxes h w fs (Finite False mj) (Finite False mi))))", OF _ assms])
  fix f h w s0 s1 fs a j acc y
  assume IH: "\<And>h w s0 s1 fs a j acc y. f h w s0 s1 fs a j acc = Some y \<Longrightarrow>
      1 \<le> a \<longrightarrow> (j = Infinity False \<or> (\<exists>m. j = Finite False m \<and> 0 \<le> m)) \<longrightarrow>
         (\<forall>b \<in> set y. b \<in> set acc \<or>
            (\<exists>mj mi. 0 \<le> mj \<and> 0 \<le> mi \<and>
               b \<in> set (cell_boxes h w fs (Finite False mj) (Finite False mi))))"
    and step: "(if flt j s0
        then Option.bind (cols_loop h w s1 fs a j (Finite False 0) acc)
               (f h w s0 s1 fs a (fadd F32 j (f_of_int F32 a)))
        else Some acc) = Some y"
  show "1 \<le> a \<longrightarrow> (j = Infinity False \<or> (\<exists>m. j = Finite False m \<and> 0 \<le> m)) \<longrightarrow>
         (\<forall>b \<in> set y. b \<in> set acc \<or>
            (\<exists>mj mi. 0 \<le> mj \<and> 0 \<le> mi \<and>
               b \<in> set (cell_boxes h w fs (Finite False mj) (Finite False mi))))"
  proof (intro impI)
    assume a: "1 \<le> a" and j: "j = Infinity False \<or> (\<exists>m. j = Finite False m \<and> 0 \<le> m)"
    show "\<forall>b \<in> set y. b \<in> set acc \<or>
            (\<exists>mj mi. 0 \<le> mj \<and> 0 \<le> mi \<and>
               b \<in> set (cell_boxes h w fs (Finite False mj) (Finite False mi)))"
    proof (cases "flt j s0")
      case False
      with step show ?thesis by simp
    next
      case True
      then have "j \<noteq> Infinity False" by auto
      with j obtain m where m: "j = Finite False m" "0 \<le> m" by blast
      from step True obtain row where
        row: "cols_loop h w s1 fs a j (Finite False 0) acc = Some row" and
        run: "f h w s0 s1 fs a (fadd F32 j (f_of_int F32 a)) row = Some y"
        by (auto simp: bind_eq_Some_conv)
      have "fadd F32 j (f_of_int F32 a) = Infinity False \<or>
            (\<exists>m'. fadd F32 j (f_of_int F32 a) = Finite False m' \<and> 0 \<le> m')"
        unfolding m(1) using a m(2) by (rule counter_next)
      with IH [OF run] a have after:
        "\<forall>b \<in> set y. b \<in> set row \<or>
            (\<exists>mj mi. 0 \<le> mj \<and> 0 \<le> mi \<and>
               b \<in> set (cell_boxes h w fs (Finite False mj) (Finite False mi)))"
        by blast
      from cols_loop_boxes [OF row] a have
        "\<forall>b \<in> set row. b \<in> set acc \<or>
            (\<exists>mi. 0 \<le> mi \<and> b \<in> set (cell_boxes h w fs j (Finite False mi)))"
        by auto
      with after m show ?thesis by blast
    qed
  qed
qed

lemma generateAnchors_boxes:
  assumes "generateAnchors scales ratios shape fs a = Some (Inr boxes)" "b \<in> set boxes"
  shows "\<exists>mj mi. 0 \<le> mj \<and> 0 \<le> mi \<and>
           b \<in> set (cell_boxes (anchor_heights scales ratios) (anchor_widths scales ratios) fs
                      (Finite False mj) (Finite False mi))"
proof -
  from assms have run: "rows_loop (anchor_heights scales ratios) (anchor_widths scales ratios)
      (shape ! 0) (shape ! 1) fs a (Finite False 0) [] = Some boxes"
    and pos: "flt (Finite False 0) (shape ! 0)"
    by (auto simp: generateAnchors_def Let_def split: if_splits)
  have "1 \<le> a"
  proof (rule ccontr)
    assume "\<not> 1 \<le> a"
    then have "a \<le> 0" by simp
    with rows_loop_nonpos_aux [OF run] pos show False by simp
  qed
  with rows_loop_boxes [OF run] assms(2) show ?thesis by auto
qed

subsection \<open>Two runs of the generator\<close>

lemma default_ratios_positive:
  "positive_f32 (default_ratios ! 0)" "positive_f32 (default_ratios ! 1)"
  "positive_f32 (default_ratios ! 2)"
  by (simp_all add: default_ratios_def fp_eval)

lemma level_1_1:
  "generateAnchors scales default_ratios [Finite False 1, Finite False 1] fs 1 =
     Some (Inr (cell_boxes (anchor_heights scales default_ratios)
                  (anchor_widths scales default_ratios) fs (Finite False 0) (Finite False 0)))"
  using generateAnchors_nat [of default_ratios 1 1 scales fs]
  by (simp add: nat_fp_def level_anchors_def row_anchors_def)

lemma overflow_sizes:
  "anchor_heights 4611686018427387904 [Finite False (1 / 2 ^ 140), Finite False 1, Finite False 1] =
     [Infinity False, Finite False 4611686018427387904, Finite False 4611686018427387904]"
  "anchor_widths 4611686018427387904 [Finite False (1 / 2 ^ 140), Finite False 1, Finite False 1] =
     [Finite False (1 / 256), Finite False 4611686018427387904, Finite False 4611686018427387904]"
  by (simp_all add: anchor_heights_def anchor_widths_def upt_3 fp_eval)

subsection \<open>The cells of a run and their three anchors\<close>

lemma cell_boxes_ratios:
  "cell_boxes (anchor_heights scales (r0 # r1 # r2 # rest))
     (anchor_widths scales (r0 # r1 # r2 # rest)) fs j i =
   cell_anchors scales r0 r1 r2 fs (j, i)"
  by (simp add: cell_boxes_def anchor_heights_def anchor_widths_def cell_anchors_def
      ratio_anchor_def upt_3 Let_def)

lemma concat_concat: "concat (concat xss) = concat (map concat xss)"
  by (induction xss) simp_all

lemma level_anchors_grid:
  "level_anchors h w fs r c =
     concat (map (\<lambda>cell. cell_boxes h w fs (fst cell) (snd cell)) (grid r c))"
proof -
  have "row_anchors h w fs c =
      (\<lambda>j. concat (map (\<lambda>i. cell_boxes h w fs (nat_fp j) (nat_fp i)) [0 ..< c]))"
    by (rule ext) (simp add: row_anchors_def)
  then show ?thesis
    by (simp add: level_anchors_def grid_def map_concat comp_def concat_concat)
qed

lemma length_grid [simp]: "length (grid r c) = r * c"
  by (simp add: grid_def length_concat comp_def sum_list_triv)

lemma cols_loop_cells:
  assumes "cols_loop h w s1 fs a j i acc = Some y"
  shows "\<exists>cols. y = acc @ concat (map (cell_boxes h w fs j) cols) \<and>
           (\<forall>i' \<in> set cols. flt i' s1)"
proof (rule cols_loop.raw_induct
    [where P = "\<lambda>h w s1 fs a j i acc y.
       \<exists>cols. y = acc @ concat (map (cell_boxes h w fs j) cols) \<and>
           (\<forall>i' \<in> set cols. flt i' s1)", OF _ assms])
  fix f h w s1 fs a j i acc y
  assume IH: "\<And>h w s1 fs a j i acc y. f h w s1 fs a j i acc = Some y \<Longrightarrow>
      \<exists>cols. y = acc @ concat (map (cell_boxes h w fs j) cols) \<and>
           (\<forall>i' \<in> set cols. flt i' s1)"
    and step: "(if flt i s1
        then f h w s1 fs a j (fadd F32 i (f_of_int F32 a)) (acc @ cell_boxes h w fs j i)
        else Some acc) = Some y"
  show "\<exists>cols. y = acc @ concat (map (cell_boxes h w fs j) cols) \<and>
           (\<forall>i' \<in> set cols. flt i' s1)"
  proof (cases "flt i s1")
    case False
    with step have "y = acc @ concat (map (cell_boxes h w fs j) [])" by simp
    then show ?thesis by (intro exI [of _ "[]"]) simp
  next
    case True
    with step have
      "f h w s1 fs a j (fadd F32 i (f_of_int F32 a)) (acc @ cell_boxes h w fs j i) = Some y"
      by simp
    from IH [OF this] obtain cols where
      "y = (acc @ cell_boxes h w fs j i) @ concat (map (cell_boxes h w fs j) cols)"
      "\<forall>i' \<in> set cols. flt i' s1" by blast
    with True show ?thesis by (intro exI [of _ "i # cols"]) simp
  qed
qed

lemma rows_loop_cells:
  assumes "rows_loop h w s0 s1 fs a j acc = Some y"
  shows "\<exists>cells. y = acc @ concat (map (\<lambda>cell. cell_boxes h w fs (fst cell) (snd cell)) cells) \<and>
           (\<forall>cell \<in> set cells. flt (fst cell) s0 \<and> flt (snd cell) s1)"
proof (rule rows_loop.raw_induct
    [where P = "\<lambda>h w s0 s1 fs a j acc y.
       \<exists>cells. y = acc @ concat (map (\<lambda>cell. cell_boxes h w fs (fst cell) (snd cell)) cells) \<and>
           (\<forall>cell \<in> set cells. flt (fst cell) s0 \<and> flt (snd cell) s1)", OF _ assms])
  fix f h w s0 s1 fs a j acc y
  assume IH: "\<And>h w s0 s1 fs a j acc y. f h w s0 s1 fs a j acc = Some y \<Longrightarrow>
      \<exists>cells. y = acc @ concat (map (\<lambda>cell. cell_boxes h w fs (fst cell) (snd cell)) cells) \<and>
           (\<forall>cell \<in> set cells. flt (fst cell) s0 \<and> flt (snd cell) s1)"
    and step: "(if flt j s0
        then Option.bind (cols_loop h w s1 fs a j (Finite False 0) acc)
               (f h w s0 s1 fs a (fadd F32 j (f_of_int F32 a)))
        else Some acc) = Some y"
  show "\<exists>cells. y = acc @ concat (map (\<lambda>cell. cell_boxes h w fs (fst cell) (snd cell)) cells) \<and>
           (\<forall>cell \<in> set cells. flt (fst cell) s0 \<and> flt (snd cell) s1)"
  proof (cases "flt j s0")
    case False
    with step have "y = acc" by simp
    then show ?thesis by (intro exI [of _ "[]"]) simp
  next
    case True
    with step obtain row where
      row: "cols_loop h w s1 fs a j (Finite False 0) acc = Some row" and
      run: "f h w s0 s1 fs a (fadd F32 j (f_of_int F32 a)) row = Some y"
      by (auto simp: bind_eq_Some_conv)
    from cols_loop_cells [OF row] obtain cols where
      cols: "row = acc @ concat (map (cell_boxes h w fs j) cols)" "\<forall>i' \<in> set cols. flt i' s1"
      by blast
    from IH [OF run] obtain cells where
      cells: "y = row @ concat (map (\<lambda>cell. cell_boxes h w fs (fst cell) (snd cell)) cells)"
        "\<forall>cell \<in> set cells. flt (fst cell) s0 \<and> flt (snd cell) s1" by blast
    from cols cells True show ?thesis
      by (intro exI [of _ "map (Pair j) cols @ cells"]) (auto simp: comp_def)
  qed
qed

lemma generateAnchors_cells:
  assumes "generateAnchors scales ratios shape fs a = Some (Inr boxes)"
  shows "\<exists>cells. boxes = concat (map (\<lambda>cell. cell_boxes (anchor_heights scales ratios)
                      (anchor_widths scales ratios) fs (fst cell) (snd cell)) cells) \<and>
           (\<forall>cell \<in> set cells. flt (fst cell) (shape ! 0) \<and> flt (snd cell) (shape ! 1))"
proof (cases "flt (Finite False 0) (shape ! 0)")
  case False
  with assms have "boxes = []" by (auto simp: generateAnchors_def Let_def split: if_splits)
  then show ?thesis by (intro exI [of _ "[]"]) simp
next
  case True
  with assms have "rows_loop (anchor_heights scales ratios) (anchor_widths scales ratios)
      (shape ! 0) (shape ! 1) fs a (Finite False 0) [] = Some boxes"
    by (auto simp: generateAnchors_def Let_def split: if_splits)
  from rows_loop_cells [OF this] show ?thesis by simp
qed

section \<open>The claims\<close>

text \<open>
  C1. The third tensor returned by \<^verbatim>\<open>makeInputs\<close> is not the pyramid anchor set: it is
  the one row of the four corners of the resized image's bounds, of shape \<open>(1, 4)\<close>, whereas
  the anchors of the same bounds form a tensor of shape \<open>(1, N, 4)\<close>. Here for a 600 by 400
  image resized to 800 by 800, where \<open>N = 159882\<close>.
\<close>

theorem makeInputs_third_tensor_is_window:
  "third_tensor
     (makeInputs (\<lambda>img w h. \<lparr>Bounds = \<lparr>MinX = 0, MinY = 0, MaxX = 800, MaxY = 800\<rparr>,
                              At = (\<lambda>x y. (0, 0, 0, 65535))\<rparr>)
        \<lparr>Bounds = \<lparr>MinX = 0, MinY = 0, MaxX = 600, MaxY = 400\<rparr>,
         At = (\<lambda>x y. (0, 0, 0, 65535))\<rparr>) =
     Inr (Tensor (Arr [Arr [Scalar (Finite False 0), Scalar (Finite False 0),
                            Scalar (Finite False 800), Scalar (Finite False 800)]])) \<and>
   anchors_shape (getAnchors \<lparr>MinX = 0, MinY = 0, MaxX = 800, MaxY = 800\<rparr>) =
     Some (Inr [1, 159882, 4])"
proof -
  have d: "Dy \<lparr>MinX = 0, MinY = 0, MaxX = 800, MaxY = 800\<rparr> = 800"
    "Dx \<lparr>MinX = 0, MinY = 0, MaxX = 800, MaxY = 800\<rparr> = 800"
    by (simp_all add: Dy_def Dx_def wrap64_def)
  have f: "f_of_int F32 0 = Finite False 0" "f_of_int F32 800 = Finite False 800"
    by (simp_all add: fp_eval)
  have a: "getAnchors \<lparr>MinX = 0, MinY = 0, MaxX = 800, MaxY = 800\<rparr> =
      Some (Inr [pyramid_anchors 800 800])"
    using getAnchors_closed [of "\<lparr>MinX = 0, MinY = 0, MaxX = 800, MaxY = 800\<rparr>"]
    by (simp add: d)
  have l: "length (pyramid_anchors 800 800) = 159882"
    by (simp add: pyramid_anchors_def pyramid_level_def ceil_div_numeral)
  then have "pyramid_anchors 800 800 \<noteq> []" by auto
  then have "shape_of (anchors_val [pyramid_anchors 800 800]) = [1, 159882, 4]"
    using l by (simp add: shape_of_anchors_val)
  then have "anchors_shape (getAnchors \<lparr>MinX = 0, MinY = 0, MaxX = 800, MaxY = 800\<rparr>) =
     Some (Inr [1, 159882, 4])"
    by (simp add: anchors_shape_def a)
  moreover have "third_tensor
     (makeInputs (\<lambda>img w h. \<lparr>Bounds = \<lparr>MinX = 0, MinY = 0, MaxX = 800, MaxY = 800\<rparr>,
                              At = (\<lambda>x y. (0, 0, 0, 65535))\<rparr>)
        \<lparr>Bounds = \<lparr>MinX = 0, MinY = 0, MaxX = 600, MaxY = 400\<rparr>,
         At = (\<lambda>x y. (0, 0, 0, 65535))\<rparr>) =
     Inr (Tensor (Arr [Arr [Scalar (Finite False 0), Scalar (Finite False 0),
                            Scalar (Finite False 800), Scalar (Finite False 800)]]))"
    by (subst makeInputs_third) (simp_all add: d f)
  ultimately show ?thesis by blast
qed




text \<open>
  C3. For image bounds of height \<open>H\<close> and width \<open>W\<close> between 0 and \<open>2^26 = 67108864\<close> the
  pyramid anchor generator returns, for the strides 4, 8, 16, 32 and 64 and anchor stride 1,
  exactly the sum over the strides \<open>s\<close> of \<open>\<lceil>H / s\<rceil> * \<lceil>W / s\<rceil> * 3\<close> anchors.
\<close>

theorem getAnchors_count:
  assumes "0 \<le> Dy b" "Dy b \<le> 2 ^ 26" "0 \<le> Dx b" "Dx b \<le> 2 ^ 26"
  shows "\<exists>anchors. getAnchors b = Some (Inr [anchors]) \<and>
           length anchors =
             ceil_div (Dy b) 4 * ceil_div (Dx b) 4 * 3 + ceil_div (Dy b) 8 * ceil_div (Dx b) 8 * 3 +
             ceil_div (Dy b) 16 * ceil_div (Dx b) 16 * 3 + ceil_div (Dy b) 32 * ceil_div (Dx b) 32 * 3 +
             ceil_div (Dy b) 64 * ceil_div (Dx b) 64 * 3"
  by (simp add: getAnchors_closed [OF assms] pyramid_anchors_def pyramid_level_def)

theorem getAnchors_count_witness:
  "\<exists>anchors. getAnchors \<lparr>MinX = 0, MinY = 0, MaxX = 1024, MaxY = 1024\<rparr> = Some (Inr [anchors]) \<and>
     length anchors = 196608 + 49152 + 12288 + 3072 + 768 \<and>
     ceil_div 1024 4 * ceil_div 1024 4 * 3 = 196608"
proof -
  have d: "Dy \<lparr>MinX = 0, MinY = 0, MaxX = 1024, MaxY = 1024\<rparr> = 1024"
    "Dx \<lparr>MinX = 0, MinY = 0, MaxX = 1024, MaxY = 1024\<rparr> = 1024"
    by (simp_all add: Dy_def Dx_def wrap64_def)
  show ?thesis
    using getAnchors_count [of "\<lparr>MinX = 0, MinY = 0, MaxX = 1024, MaxY = 1024\<rparr>"]
    by (simp add: d ceil_div_numeral)
qed

theorem getAnchors_count_counterexample:
  "map_option (map_sum id (map length))
     (getAnchors \<lparr>MinX = 0, MinY = 0, MaxX = 1, MaxY = 67108868\<rparr>) = Some (Inr [97517580]) \<and>
   ceil_div 67108868 4 * ceil_div 1 4 * 3 + ceil_div 67108868 8 * ceil_div 1 8 * 3 +
   ceil_div 67108868 16 * ceil_div 1 16 * 3 + ceil_div 67108868 32 * ceil_div 1 32 * 3 +
   ceil_div 67108868 64 * ceil_div 1 64 * 3 = 97517583"
proof -
  have d: "Dy \<lparr>MinX = 0, MinY = 0, MaxX = 1, MaxY = 67108868\<rparr> = 67108868"
    "Dx \<lparr>MinX = 0, MinY = 0, MaxX = 1, MaxY = 67108868\<rparr> = 1"
    by (simp_all add: Dy_def Dx_def wrap64_def)
  have sh: "computeBackboneShapes \<lparr>MinX = 0, MinY = 0, MaxX = 1, MaxY = 67108868\<rparr> [4, 8, 16, 32, 64] =
      [[nat_fp 16777216, nat_fp 1], [nat_fp 8388609, nat_fp 1], [nat_fp 4194305, nat_fp 1],
       [nat_fp 2097153, nat_fp 1], [nat_fp 1048577, nat_fp 1]]"
    by (simp add: computeBackboneShapes_def d nat_fp_def fp_eval)
  have one: "ceil_div 1 (numeral b) = nat (- ((- 1) div numeral b))" for b
    by (simp add: ceil_div_def ceiling_one_div)
  have "map_option (map_sum id (map length))
     (getAnchors \<lparr>MinX = 0, MinY = 0, MaxX = 1, MaxY = 67108868\<rparr>) = Some (Inr [97517580])"
    by (simp add: getAnchors_def generatePyramidAnchors_def sh upt_5 generateAnchors_nat)
  then show ?thesis by (simp add: ceil_div_numeral one)
qed

text \<open>
  C4. For every image id, bounds, window, scale and class count \<open>numClasses \<ge> 0\<close> the
  metadata composer returns the tensor of one row of \<open>12 + numClasses\<close> entries: the image
  id, the original height and width and the depth 3, the resized height and width and the
  depth 3, the window's \<open>y1, x1, y2, x2\<close>, the scale, and then \<open>numClasses\<close> zeros. The first
  twelve entries do not depend on \<open>numClasses\<close>.
\<close>

theorem composeImageMeta_layout:
  assumes "0 \<le> numClasses"
  shows "\<exists>meta. composeImageMeta imageID originalBounds resizedBounds window scale numClasses =
             Inr (Tensor (Arr [Arr (map Scalar meta)])) \<and>
           length meta = 12 + nat numClasses \<and>
           take 12 meta =
             [f_of_int F32 imageID,
              f_of_int F32 (Dy originalBounds), f_of_int F32 (Dx originalBounds), Finite False 3,
              f_of_int F32 (Dy resizedBounds), f_of_int F32 (Dx resizedBounds), Finite False 3,
              f_of_int F32 (MinY window), f_of_int F32 (MinX window),
              f_of_int F32 (MaxY window), f_of_int F32 (MaxX window), scale] \<and>
           drop 12 meta = replicate (nat numClasses) (Finite False 0)"
proof -
  have three: "f_const F32 3 = Finite False 3" by (simp add: fp_eval)
  define meta where "meta =
     [f_of_int F32 imageID,
      f_of_int F32 (Dy originalBounds), f_of_int F32 (Dx originalBounds), Finite False 3,
      f_of_int F32 (Dy resizedBounds), f_of_int F32 (Dx resizedBounds), Finite False 3,
      f_of_int F32 (MinY window), f_of_int F32 (MinX window),
      f_of_int F32 (MaxY window), f_of_int F32 (MaxX window), scale] @
     replicate (nat numClasses) (Finite False 0)"
  have "composeImageMeta imageID originalBounds resizedBounds window scale numClasses =
             Inr (Tensor (Arr [Arr (map Scalar meta)]))"
    using assms by (simp add: composeImageMeta_def NewTensor_def three meta_def)
  moreover have "length meta = 12 + nat numClasses" by (simp add: meta_def)
  moreover have "take 12 meta =
             [f_of_int F32 imageID,
              f_of_int F32 (Dy originalBounds), f_of_int F32 (Dx originalBounds), Finite False 3,
              f_of_int F32 (Dy resizedBounds), f_of_int F32 (Dx resizedBounds), Finite False 3,
              f_of_int F32 (MinY window), f_of_int F32 (MinX window),
              f_of_int F32 (MaxY window), f_of_int F32 (MaxX window), scale]"
    by (simp add: meta_def)
  moreover have "drop 12 meta = replicate (nat numClasses) (Finite False 0)"
    by (simp add: meta_def)
  ultimately show ?thesis by blast
qed

theorem composeImageMeta_layout_witness:
  "\<exists>meta. composeImageMeta 0 \<lparr>MinX = 0, MinY = 0, MaxX = 600, MaxY = 400\<rparr>
             \<lparr>MinX = 0, MinY = 0, MaxX = 800, MaxY = 800\<rparr>
             \<lparr>MinX = 0, MinY = 0, MaxX = 800, MaxY = 800\<rparr> (Finite False 2) 81 =
             Inr (Tensor (Arr [Arr (map Scalar meta)])) \<and>
           length meta = 93 \<and>
           take 7 meta = [Finite False 0, Finite False 400, Finite False 600, Finite False 3,
                          Finite False 800, Finite False 800, Finite False 3]"
proof -
  have d: "Dy \<lparr>MinX = 0, MinY = 0, MaxX = 600, MaxY = 400\<rparr> = 400"
    "Dx \<lparr>MinX = 0, MinY = 0, MaxX = 600, MaxY = 400\<rparr> = 600"
    "Dy \<lparr>MinX = 0, MinY = 0, MaxX = 800, MaxY = 800\<rparr> = 800"
    "Dx \<lparr>MinX = 0, MinY = 0, MaxX = 800, MaxY = 800\<rparr> = 800"
    by (simp_all add: Dy_def Dx_def wrap64_def)
  have f: "f_of_int F32 0 = Finite False 0" "f_of_int F32 400 = Finite False 400"
    "f_of_int F32 600 = Finite False 600" "f_of_int F32 800 = Finite False 800"
    by (simp_all add: fp_eval)
  from composeImageMeta_layout [of 81 0 "\<lparr>MinX = 0, MinY = 0, MaxX = 600, MaxY = 400\<rparr>"
      "\<lparr>MinX = 0, MinY = 0, MaxX = 800, MaxY = 800\<rparr>"
      "\<lparr>MinX = 0, MinY = 0, MaxX = 800, MaxY = 800\<rparr>" "Finite False 2"]
  obtain meta where m: "composeImageMeta 0 \<lparr>MinX = 0, MinY = 0, MaxX = 600, MaxY = 400\<rparr>
             \<lparr>MinX = 0, MinY = 0, MaxX = 800, MaxY = 800\<rparr>
             \<lparr>MinX = 0, MinY = 0, MaxX = 800, MaxY = 800\<rparr> (Finite False 2) 81 =
             Inr (Tensor (Arr [Arr (map Scalar meta)]))"
    "length meta = 93"
    "take 12 meta = [Finite False 0, Finite False 400, Finite False 600, Finite False 3,
        Finite False 800, Finite False 800, Finite False 3, Finite False 0, Finite False 0,
        Finite False 800, Finite False 800, Finite False 2]"
    by (auto simp: d f)
  have "take 7 meta = take 7 (take 12 meta)" by simp
  also have "\<dots> = [Finite False 0, Finite False 400, Finite False 600, Finite False 3,
                          Finite False 800, Finite False 800, Finite False 3]"
    unfolding m(3) by simp
  finally show ?thesis using m(1,2) by blast
qed

text \<open>
  C5. Scheme A computes \<open>f(v) = (byte(v) - 127.5) / 127.5\<close> in \<^verbatim>\<open>float32\<close>, where
  \<open>byte(v) = v >> 8\<close> is the high byte of a 16-bit sample: for a sample below \<open>2^16\<close> the
  result is that quotient rounded once to \<^verbatim>\<open>float32\<close>. \<open>f(0) = -1\<close>, \<open>f(255 * 256) = 1\<close>,
  and \<open>f\<close> is monotonically non-decreasing. \<^verbatim>\<open>convertTF\<close> is the same function.
\<close>

theorem convert_scheme_A:
  "(uint v < 65536 \<longrightarrow>
      uint (drop_bit 8 v) = uint v div 256 \<and> uint v div 256 < 256 \<and>
      convert v = rnd_signed F32 False ((of_int (uint v div 256) - 255 / 2) / (255 / 2))) \<and>
   convert 0 = Finite True 1 \<and>
   convert (255 * 256) = Finite False 1 \<and>
   (v \<le> w \<longrightarrow> fle (convert v) (convert w)) \<and>
   convertTF v = convert v"
proof -
  have "convert 0 = Finite True 1"
    by (simp add: convert_unfold fp_eval)
  moreover have "convert (255 * 256) = Finite False 1"
    by (simp add: convert_unfold fp_eval)
  moreover have "uint v < 65536 \<longrightarrow> uint v div 256 < 256" by (simp add: div_256)
  moreover have "convertTF v = convert v" by (simp add: convertTF_def convert_def)
  ultimately show ?thesis
    by (simp add: convert_byte convert_mono uint_drop_bit_8)
qed

theorem convert_scheme_A_witness:
  "uint (drop_bit 8 (32768 :: 32 word)) = 128 \<and>
   convert 32768 = Finite False (8421505 / 2147483648) \<and>
   fle (convert 0) (convert (255 * 256))"
proof -
  have "rnd_signed F32 False ((of_int (uint (32768 :: 32 word) div 256) - 255 / 2) / (255 / 2)) =
      Finite False (8421505 / 2147483648)"
    by (simp add: fp_eval)
  moreover have "(0 :: 32 word) \<le> 255 * 256" by simp
  moreover have "rnd_signed F32 False (- 1) = Finite True 1" by (simp add: fp_eval)
  ultimately show ?thesis
    using convert_scheme_A [of 32768 32768] convert_scheme_A [of 0 "255 * 256"]
    by (simp add: sval_def)
qed

text \<open>
  C6. Scheme B writes, for the pixel read at \<open>(i, j)\<close>, the three channels in the order
  blue, green, red, each the 8-bit channel value \<open>v >> 8\<close> less its own mean, computed in
  \<^verbatim>\<open>float32\<close>: channel 0 is \<open>byte(blue) - 103.939\<close>, channel 1 is
  \<open>byte(green) - 116.779\<close> and channel 2 is \<open>byte(red) - 123.68\<close>; for samples below \<open>2^16\<close>
  each lies within \<open>0.00002\<close> of the exact difference.
\<close>

theorem imageToTensorCaffe_scheme_B:
  assumes "i < 224" "j < 224" "At img (int i) (int j) = (r, g, b, a)"
  shows "\<exists>t. imageToTensorCaffe img = Inr (Tensor t) \<and> shape_of t = [1, 224, 224, 3] \<and>
     elem t [0, i, j, 0] =
       Some (Scalar (fsub F32 (convertCaffe b) (f_const F32 (103939 / 1000)))) \<and>
     elem t [0, i, j, 1] =
       Some (Scalar (fsub F32 (convertCaffe g) (f_const F32 (116779 / 1000)))) \<and>
     elem t [0, i, j, 2] =
       Some (Scalar (fsub F32 (convertCaffe r) (f_const F32 (12368 / 100)))) \<and>
     (uint b < 65536 \<longrightarrow>
        fp_within (fsub F32 (convertCaffe b) (f_const F32 (103939 / 1000)))
          (of_int (uint b div 256) - 103939 / 1000) (1 / 50000)) \<and>
     (uint g < 65536 \<longrightarrow>
        fp_within (fsub F32 (convertCaffe g) (f_const F32 (116779 / 1000)))
          (of_int (uint g div 256) - 116779 / 1000) (1 / 50000)) \<and>
     (uint r < 65536 \<longrightarrow>
        fp_within (fsub F32 (convertCaffe r) (f_const F32 (12368 / 100)))
          (of_int (uint r div 256) - 12368 / 100) (1 / 50000))"
proof -
  define px where "px = (\<lambda>i j. Arr (map Scalar (caffe_pixel img (int i) (int j))))"
  define t where "t = Arr [Arr (map (\<lambda>i. Arr (map (px i) [0 ..< 224])) [0 ..< 224])]"
  have t: "imageToTensorCaffe img = Inr (Tensor t)"
    by (simp add: imageToTensorCaffe_def NewTensor_def t_def px_def)
  have p: "px i j = Arr [Scalar (fsub F32 (convertCaffe b) (f_const F32 (103939 / 1000))),
                        Scalar (fsub F32 (convertCaffe g) (f_const F32 (116779 / 1000))),
                        Scalar (fsub F32 (convertCaffe r) (f_const F32 (12368 / 100)))]"
    by (simp add: px_def caffe_pixel_def assms(3))
  have "shape_of (px 0 0) = [3]"
    by (cases "At img 0 0") (simp add: px_def caffe_pixel_def)
  then have sh: "shape_of t = [1, 224, 224, 3]"
    by (simp add: t_def shape_of_map_upt)
  have e: "elem t (0 # i # j # is) = elem (px i j) is" for "is"
    using assms(1,2) by (simp add: t_def)
  have nz: "(13623493 / 131072 :: rat) \<notin> \<int>" "(15306457 / 131072 :: rat) \<notin> \<int>"
    "(16210985 / 131072 :: rat) \<notin> \<int>"
    using not_int_odd_over_pow2 [of 13623493 17] not_int_odd_over_pow2 [of 15306457 17]
      not_int_odd_over_pow2 [of 16210985 17]
    by simp_all
  have w: "uint b < 65536 \<longrightarrow>
        fp_within (fsub F32 (convertCaffe b) (f_const F32 (103939 / 1000)))
          (of_int (uint b div 256) - 103939 / 1000) (1 / 50000)"
    "uint g < 65536 \<longrightarrow>
        fp_within (fsub F32 (convertCaffe g) (f_const F32 (116779 / 1000)))
          (of_int (uint g div 256) - 116779 / 1000) (1 / 50000)"
    "uint r < 65536 \<longrightarrow>
        fp_within (fsub F32 (convertCaffe r) (f_const F32 (12368 / 100)))
          (of_int (uint r div 256) - 12368 / 100) (1 / 50000)"
    unfolding caffe_means by (intro impI mean_subtracted_within nz; simp)+
  have "elem t [0, i, j, 0] =
       Some (Scalar (fsub F32 (convertCaffe b) (f_const F32 (103939 / 1000))))"
    "elem t [0, i, j, 1] =
       Some (Scalar (fsub F32 (convertCaffe g) (f_const F32 (116779 / 1000))))"
    "elem t [0, i, j, 2] =
       Some (Scalar (fsub F32 (convertCaffe r) (f_const F32 (12368 / 100))))"
    by (simp_all add: e p)
  with t sh w show ?thesis by blast
qed

theorem imageToTensorCaffe_scheme_B_witness:
  "\<exists>t. imageToTensorCaffe \<lparr>Bounds = \<lparr>MinX = 0, MinY = 0, MaxX = 224, MaxY = 224\<rparr>,
                            At = (\<lambda>x y. (65535, 32768, 0, 65535))\<rparr> = Inr (Tensor t) \<and>
     shape_of t = [1, 224, 224, 3] \<and>
     elem t [0, 223, 7, 0] = Some (Scalar (Finite True (13623493 / 131072))) \<and>
     elem t [0, 223, 7, 1] = Some (Scalar (Finite False (1470759 / 131072))) \<and>
     elem t [0, 223, 7, 2] = Some (Scalar (Finite False (2151547 / 16384))) \<and>
     fp_within (Finite False (1470759 / 131072)) (128 - 116779 / 1000) (1 / 50000)"
proof -
  have c: "fsub F32 (convertCaffe 0) (f_const F32 (103939 / 1000)) = Finite True (13623493 / 131072)"
    "fsub F32 (convertCaffe 32768) (f_const F32 (116779 / 1000)) = Finite False (1470759 / 131072)"
    "fsub F32 (convertCaffe 65535) (f_const F32 (3092 / 25)) = Finite False (2151547 / 16384)"
    by (simp_all add: convertCaffe_byte fsub_def fp_eval)
  have "At \<lparr>Bounds = \<lparr>MinX = 0, MinY = 0, MaxX = 224, MaxY = 224\<rparr>,
            At = (\<lambda>x y. (65535, 32768, 0, 65535))\<rparr> (int 223) (int 7) = (65535, 32768, 0, 65535)"
    by simp
  from imageToTensorCaffe_scheme_B [OF _ _ this] show ?thesis
    by (auto simp: c)
qed

text \<open>
  C7. The anchor generator validates nothing and has no configuration error among its
  results. For every scale, zero and negative ones included, it returns (given three
  ratios, a shape of \<open>r\<close> rows and \<open>c\<close> columns up to \<open>2^24\<close> and anchor stride 1) all
  \<open>3 * c * r\<close> anchors; with a zero or negative anchor stride and at least one row it runs
  forever instead of reporting an error.
\<close>

theorem generateAnchors_no_validation:
  assumes "3 \<le> length ratios" "r \<le> 2 ^ 24" "c \<le> 2 ^ 24"
  shows "(\<exists>boxes. generateAnchors scales ratios [nat_fp r, nat_fp c] featureStride 1 =
             Some (Inr boxes) \<and> length boxes = 3 * c * r) \<and>
         (anchorStride \<le> 0 \<longrightarrow> 0 < r \<longrightarrow>
            generateAnchors scales ratios [nat_fp r, nat_fp c] featureStride anchorStride = None)"
proof -
  have "0 < r \<Longrightarrow> flt (Finite False 0) (nat_fp r)" by (simp add: nat_fp_def sval_def)
  then show ?thesis
    using generateAnchors_nat [OF assms, of scales featureStride]
      generateAnchors_nonpos_stride [of ratios "[nat_fp r, nat_fp c]" anchorStride scales featureStride]
      assms(1)
    by auto
qed

theorem generateAnchors_no_validation_witness:
  "(\<exists>boxes. generateAnchors (- 32) default_ratios [Finite False 2, Finite False 3] 4 1 =
             Some (Inr boxes) \<and> length boxes = 18) \<and>
   generateAnchors (- 32) default_ratios [Finite False 2, Finite False 3] 4 (- 1) = None"
  using generateAnchors_no_validation [of default_ratios 2 3 "- 32" 4 "- 1"]
  by (simp add: nat_fp_numeral)

theorem generateAnchors_no_validation_counterexample:
  "generateAnchors 0 default_ratios [Finite False 1, Finite False 1] 4 1 =
     Some (Inr [(Finite False 0, Finite False 0, Finite False 0, Finite False 0),
                (Finite False 0, Finite False 0, Finite False 0, Finite False 0),
                (Finite False 0, Finite False 0, Finite False 0, Finite False 0)])"
proof -
  have "cell_boxes [Finite False 0, Finite False 0, Finite False 0]
          [Finite False 0, Finite False 0, Finite False 0] 4 (Finite False 0) (Finite False 0) =
        [(Finite False 0, Finite False 0, Finite False 0, Finite False 0),
         (Finite False 0, Finite False 0, Finite False 0, Finite False 0),
         (Finite False 0, Finite False 0, Finite False 0, Finite False 0)]"
    by (simp add: cell_boxes_def upt_3 fp_eval)
  then show ?thesis
    using generateAnchors_nat [of default_ratios 1 1 0 4]
    by (simp add: nat_fp_def anchor_sizes_0 level_anchors_def row_anchors_def)
qed

text \<open>
  C8. For scales from 0 to \<open>2^52\<close>, three positive finite \<^verbatim>\<open>float32\<close> ratios and a feature
  stride that is a 64-bit integer, every box \<open>(y1, x1, y2, x2)\<close> of every anchor list that
  \<^verbatim>\<open>generateAnchors\<close> returns has \<open>y1 \<le> y2\<close> and \<open>x1 \<le> x2\<close>, with no check in the code:
  the half sizes are finite and not negative, and \<^verbatim>\<open>float32\<close> addition and subtraction
  are monotone.
\<close>

theorem generateAnchors_boxes_ordered:
  assumes "0 \<le> scales" "scales \<le> 2 ^ 52"
    "- (2 ^ 63) \<le> featureStride" "featureStride < 2 ^ 63"
    "positive_f32 (ratios ! 0)" "positive_f32 (ratios ! 1)" "positive_f32 (ratios ! 2)"
    "generateAnchors scales ratios shape featureStride anchorStride = Some (Inr boxes)"
  shows "\<forall>b \<in> set boxes. box_ordered b"
proof
  fix b
  assume "b \<in> set boxes"
  from generateAnchors_boxes [OF assms(8) this] obtain mj mi where
    "b \<in> set (cell_boxes (anchor_heights scales ratios) (anchor_widths scales ratios)
               featureStride (Finite False mj) (Finite False mi))"
    by blast
  with assms(1-7) show "box_ordered b" by (rule cell_boxes_ordered)
qed

theorem generateAnchors_boxes_ordered_witness:
  "generateAnchors 32 default_ratios [Finite False 1, Finite False 1] 4 1 =
     Some (Inr [(Finite True (11863283 / 524288), Finite True (11863283 / 1048576),
                 Finite False (11863283 / 524288), Finite False (11863283 / 1048576)),
                (Finite True 16, Finite True 16, Finite False 16, Finite False 16),
                (Finite True (11863283 / 1048576), Finite True (11863283 / 524288),
                 Finite False (11863283 / 1048576), Finite False (11863283 / 524288))]) \<and>
   box_ordered (Finite True (11863283 / 524288), Finite True (11863283 / 1048576),
                Finite False (11863283 / 524288), Finite False (11863283 / 1048576))"
proof -
  have run: "generateAnchors 32 default_ratios [Finite False 1, Finite False 1] 4 1 =
     Some (Inr [(Finite True (11863283 / 524288), Finite True (11863283 / 1048576),
                 Finite False (11863283 / 524288), Finite False (11863283 / 1048576)),
                (Finite True 16, Finite True 16, Finite False 16, Finite False 16),
                (Finite True (11863283 / 1048576), Finite True (11863283 / 524288),
                 Finite False (11863283 / 1048576), Finite False (11863283 / 524288))])"
    using first_cell_32 by (simp add: level_1_1 nat_fp_def)
  have "(0::int) \<le> 32" "(32::int) \<le> 2 ^ 52" "- (2 ^ 63) \<le> (4::int)" "(4::int) < 2 ^ 63"
    by simp_all
  from generateAnchors_boxes_ordered [OF this default_ratios_positive run] run
  show ?thesis by simp
qed

theorem generateAnchors_boxes_ordered_counterexample:
  "positive_f32 (Finite False (1 / 2 ^ 140)) \<and> positive_f32 (Finite False 1) \<and>
   nth_box 12
     (generateAnchors 4611686018427387904
        [Finite False (1 / 2 ^ 140), Finite False 1, Finite False 1]
        [Finite False 46116860184273879040, Finite False 1]
        9223372036854775807 9223372036854775807) =
     Some (NaN, Finite True (1 / 512), Infinity False, Finite False (1 / 512)) \<and>
   \<not> box_ordered (NaN, Finite True (1 / 512), Infinity False, Finite False (1 / 512))"
proof -
  have p: "positive_f32 (Finite False (1 / 2 ^ 140))" "positive_f32 (Finite False 1)"
    by (simp_all add: fp_eval)
  define H where "H = [Infinity False, Finite False 4611686018427387904,
    Finite False 4611686018427387904]"
  define W where "W = [Finite False (1 / 256), Finite False 4611686018427387904,
    Finite False 4611686018427387904]"
  define cell where "cell = (\<lambda>j. cell_boxes H W 9223372036854775807 (Finite False j) (Finite False 0))"
  have s: "f_of_int F32 9223372036854775807 = Finite False 9223372036854775808"
    by (simp add: fp_eval)
  have run: "generateAnchors 4611686018427387904
        [Finite False (1 / 2 ^ 140), Finite False 1, Finite False 1]
        [Finite False 46116860184273879040, Finite False 1]
        9223372036854775807 9223372036854775807 =
      Some (Inr (cell 0 @ cell 9223372036854775808 @ cell 18446744073709551616 @
                 cell 27670116110564327424 @ cell 36893488147419103232))"
    by (simp add: generateAnchors_def overflow_sizes [simplified] s rows_loop.simps
        cols_loop.simps H_def [symmetric] W_def [symmetric] cell_def fp_eval)
  have len: "length (cell j) = 3" for j by (simp add: cell_def)
  have "cell 36893488147419103232 ! 0 =
      (NaN, Finite True (1 / 512), Infinity False, Finite False (1 / 512))"
    by (simp add: cell_def cell_boxes_def upt_3 H_def W_def s fp_eval)
  then have "nth_box 12
     (generateAnchors 4611686018427387904
        [Finite False (1 / 2 ^ 140), Finite False 1, Finite False 1]
        [Finite False 46116860184273879040, Finite False 1]
        9223372036854775807 9223372036854775807) =
     Some (NaN, Finite True (1 / 512), Infinity False, Finite False (1 / 512))"
    unfolding run by (simp add: nth_box_def nth_append len)
  with p show ?thesis by (simp add: box_ordered_def)
qed

text \<open>
  C9. \<^verbatim>\<open>generateAnchors\<close> returns for every anchor stride of at least 1 when neither
  entry of the shape exceeds \<open>2^24 = 16777216\<close>, the largest value up to which a
  \<^verbatim>\<open>float32\<close> counter still grows when the stride is added. It never returns when the
  anchor stride is zero or negative and \<^verbatim>\<open>shape[0]\<close> is positive.
\<close>

theorem generateAnchors_termination:
  assumes "3 \<le> length ratios" "2 \<le> length shape"
  shows "(1 \<le> anchorStride \<longrightarrow> fle (shape ! 0) (Finite False 16777216) \<longrightarrow>
            fle (shape ! 1) (Finite False 16777216) \<longrightarrow>
            (\<exists>boxes. generateAnchors scales ratios shape featureStride anchorStride =
               Some (Inr boxes))) \<and>
         (anchorStride \<le> 0 \<longrightarrow> flt (Finite False 0) (shape ! 0) \<longrightarrow>
            generateAnchors scales ratios shape featureStride anchorStride = None)"
proof -
  have b: "Finite False 16777216 = nat_fp (2 ^ 24)" by (simp add: nat_fp_def)
  show ?thesis
    using assms generateAnchors_terminates [of anchorStride ratios shape scales featureStride]
      generateAnchors_nonpos_stride [of ratios shape anchorStride scales featureStride]
    by (auto simp: b dest: fle_not_flt)
qed

theorem generateAnchors_termination_witness:
  "(\<exists>boxes. generateAnchors 32 default_ratios [Finite False 2, Finite False (5 / 2)] 4 2 =
      Some (Inr boxes)) \<and>
   generateAnchors 32 default_ratios [Finite False 2, Finite False (5 / 2)] 4 0 = None"
  using generateAnchors_termination
      [of default_ratios "[Finite False 2, Finite False (5 / 2)]" 2 32 4]
    generateAnchors_termination
      [of default_ratios "[Finite False 2, Finite False (5 / 2)]" 0 32 4]
  by (simp add: sval_def)

theorem generateAnchors_termination_counterexample:
  "generateAnchors 32 default_ratios [Finite False 33554432, Finite False 0] 4 1 = None"
  by (rule generateAnchors_stall) (simp_all add: nat_fp_def sval_def)

text \<open>
  C10. \<^verbatim>\<open>generateAnchors\<close> reads \<^verbatim>\<open>ratios[0]\<close>, \<^verbatim>\<open>ratios[1]\<close> and \<^verbatim>\<open>ratios[2]\<close>
  whatever the length of the slice. With fewer than three ratios it panics with an index
  out of range, for every shape and stride. With three or more, the ratios after the third
  do not change the result, and the result is made of exactly three anchors for each
  visited cell, one for each of the first three ratios in their order: for \<open>r\<close> rows and
  \<open>c\<close> columns up to \<open>2^24\<close> and anchor stride 1 it is the list of the anchors of the cells
  \<open>(0, 0), (0, 1), \<dots>, (r - 1, c - 1)\<close>, row by row; and for every shape and stride a
  returned list is the concatenation of the three anchors of the cells of some list, whose
  counters are below the bounds of the shape, so that it holds three times as many anchors
  as cells.
\<close>

theorem generateAnchors_reads_three_ratios:
  assumes "r \<le> 2 ^ 24" "c \<le> 2 ^ 24"
  shows
    "(length ratios < 3 \<longrightarrow>
        generateAnchors scales ratios shape featureStride anchorStride =
          Some (Inl IndexOutOfRange)) \<and>
     generateAnchors scales (r0 # r1 # r2 # rest) shape featureStride anchorStride =
       generateAnchors scales [r0, r1, r2] shape featureStride anchorStride \<and>
     generateAnchors scales (r0 # r1 # r2 # rest) [nat_fp r, nat_fp c] featureStride 1 =
       Some (Inr (concat (map (cell_anchors scales r0 r1 r2 featureStride) (grid r c)))) \<and>
     (\<forall>boxes. generateAnchors scales (r0 # r1 # r2 # rest) shape featureStride anchorStride =
                Some (Inr boxes) \<longrightarrow>
        (\<exists>cells. boxes = concat (map (cell_anchors scales r0 r1 r2 featureStride) cells) \<and>
                  length boxes = 3 * length cells \<and>
                  (\<forall>cell \<in> set cells. flt (fst cell) (shape ! 0) \<and> flt (snd cell) (shape ! 1))))"
proof -
  have h: "anchor_heights scales (r0 # r1 # r2 # rest) = anchor_heights scales [r0, r1, r2]"
    by (simp add: anchor_heights_def upt_3)
  have w: "anchor_widths scales (r0 # r1 # r2 # rest) = anchor_widths scales [r0, r1, r2]"
    by (simp add: anchor_widths_def upt_3)
  have ignore: "generateAnchors scales (r0 # r1 # r2 # rest) shape featureStride anchorStride =
     generateAnchors scales [r0, r1, r2] shape featureStride anchorStride"
    by (simp add: generateAnchors_def h w)
  have len: "length (concat (map (cell_anchors scales r0 r1 r2 featureStride) cells)) =
      3 * length cells" for cells
    by (simp add: length_concat comp_def cell_anchors_def sum_list_triv)
  have grid: "generateAnchors scales (r0 # r1 # r2 # rest) [nat_fp r, nat_fp c] featureStride 1 =
       Some (Inr (concat (map (cell_anchors scales r0 r1 r2 featureStride) (grid r c))))"
    using generateAnchors_nat [OF _ assms, of "r0 # r1 # r2 # rest" scales featureStride]
    by (simp add: level_anchors_grid cell_boxes_ratios)
  have cells: "\<exists>cells. boxes = concat (map (cell_anchors scales r0 r1 r2 featureStride) cells) \<and>
                  length boxes = 3 * length cells \<and>
                  (\<forall>cell \<in> set cells. flt (fst cell) (shape ! 0) \<and> flt (snd cell) (shape ! 1))"
    if "generateAnchors scales (r0 # r1 # r2 # rest) shape featureStride anchorStride =
          Some (Inr boxes)" for boxes
    using generateAnchors_cells [OF that] by (auto simp: cell_boxes_ratios len)
  have panic: "length ratios < 3 \<Longrightarrow>
        generateAnchors scales ratios shape featureStride anchorStride =
          Some (Inl IndexOutOfRange)"
    by (simp add: generateAnchors_def)
  from panic ignore grid cells show ?thesis by blast
qed

theorem generateAnchors_reads_three_ratios_witness:
  "generateAnchors 32 [Finite False (1 / 2), Finite False 1]
       [Finite False 1, Finite False 1] 4 1 = Some (Inl IndexOutOfRange) \<and>
   generateAnchors 32 [Finite False (1 / 2), Finite False 1, Finite False 2, Finite False 7]
       [Finite False 1, Finite False 1] 4 1 =
     generateAnchors 32 [Finite False (1 / 2), Finite False 1, Finite False 2]
       [Finite False 1, Finite False 1] 4 1 \<and>
   generateAnchors 32 [Finite False (1 / 2), Finite False 1, Finite False 2, Finite False 7]
       [Finite False 1, Finite False 1] 4 1 =
     Some (Inr
       [(Finite True (11863283 / 524288), Finite True (11863283 / 1048576),
         Finite False (11863283 / 524288), Finite False (11863283 / 1048576)),
        (Finite True 16, Finite True 16, Finite False 16, Finite False 16),
        (Finite True (11863283 / 1048576), Finite True (11863283 / 524288),
         Finite False (11863283 / 1048576), Finite False (11863283 / 524288))]) \<and>
   (\<exists>cells. length cells = 1 \<and>
      generateAnchors 32 [Finite False (1 / 2), Finite False 1, Finite False 2, Finite False 7]
          [Finite False 1, Finite False 1] 4 1 =
        Some (Inr (concat (map (cell_anchors 32 (Finite False (1 / 2)) (Finite False 1)
                                  (Finite False 2) 4) cells))) \<and>
      (\<forall>cell \<in> set cells. flt (fst cell) (Finite False 1) \<and> flt (snd cell) (Finite False 1)))"
proof -
  have le: "(1::nat) \<le> 2 ^ 24" by simp
  note run = generateAnchors_reads_three_ratios
    [where r = 1 and c = 1 and ratios = "[Finite False (1 / 2), Finite False 1]" and scales = 32
       and shape = "[Finite False 1, Finite False 1]" and featureStride = 4 and anchorStride = 1
       and ?r0.0 = "Finite False (1 / 2)" and ?r1.0 = "Finite False 1"
       and ?r2.0 = "Finite False 2" and rest = "[Finite False 7]", OF le le]
  have cell: "cell_anchors 32 (Finite False (1 / 2)) (Finite False 1) (Finite False 2) 4
      (Finite False 0, Finite False 0) =
       [(Finite True (11863283 / 524288), Finite True (11863283 / 1048576),
         Finite False (11863283 / 524288), Finite False (11863283 / 1048576)),
        (Finite True 16, Finite True 16, Finite False 16, Finite False 16),
        (Finite True (11863283 / 1048576), Finite True (11863283 / 524288),
         Finite False (11863283 / 1048576), Finite False (11863283 / 524288))]"
    by (simp add: cell_anchors_def ratio_anchor_def fp_eval)
  from run [THEN conjunct2, THEN conjunct2, THEN conjunct1] have returned:
    "generateAnchors 32 [Finite False (1 / 2), Finite False 1, Finite False 2, Finite False 7]
       [Finite False 1, Finite False 1] 4 1 =
     Some (Inr
       [(Finite True (11863283 / 524288), Finite True (11863283 / 1048576),
         Finite False (11863283 / 524288), Finite False (11863283 / 1048576)),
        (Finite True 16, Finite True 16, Finite False 16, Finite False 16),
        (Finite True (11863283 / 1048576), Finite True (11863283 / 524288),
         Finite False (11863283 / 1048576), Finite False (11863283 / 524288))])"
    by (simp add: grid_def nat_fp_def cell)
  with run [THEN conjunct2, THEN conjunct2, THEN conjunct2] obtain cells where cells:
    "[(Finite True (11863283 / 524288), Finite True (11863283 / 1048576),
         Finite False (11863283 / 524288), Finite False (11863283 / 1048576)),
        (Finite True 16, Finite True 16, Finite False 16, Finite False 16),
        (Finite True (11863283 / 1048576), Finite True (11863283 / 524288),
         Finite False (11863283 / 1048576), Finite False (11863283 / 524288))] =
       concat (map (cell_anchors 32 (Finite False (1 / 2)) (Finite False 1)
                      (Finite False 2) 4) cells)"
    "length [(Finite True (11863283 / 524288), Finite True (11863283 / 1048576),
         Finite False (11863283 / 524288), Finite False (11863283 / 1048576)),
        (Finite True 16, Finite True 16, Finite False 16, Finite False 16),
        (Finite True (11863283 / 1048576), Finite True (11863283 / 524288),
         Finite False (11863283 / 1048576), Finite False (11863283 / 524288))] =
       3 * length cells"
    "\<forall>cell \<in> set cells. flt (fst cell) ([Finite False 1, Finite False 1] ! 0) \<and>
        flt (snd cell) ([Finite False 1, Finite False 1] ! 1)"
    by blast
  from cells(2) have one: "length cells = 1" by simp
  from cells(3) have visited:
    "\<forall>cell \<in> set cells. flt (fst cell) (Finite False 1) \<and> flt (snd cell) (Finite False 1)"
    by simp
  from returned cells(1) have listed:
    "generateAnchors 32 [Finite False (1 / 2), Finite False 1, Finite False 2, Finite False 7]
          [Finite False 1, Finite False 1] 4 1 =
        Some (Inr (concat (map (cell_anchors 32 (Finite False (1 / 2)) (Finite False 1)
                                  (Finite False 2) 4) cells)))"
    by (simp only:)
  from one listed visited have last: "\<exists>cells. length cells = 1 \<and>
      generateAnchors 32 [Finite False (1 / 2), Finite False 1, Finite False 2, Finite False 7]
          [Finite False 1, Finite False 1] 4 1 =
        Some (Inr (concat (map (cell_anchors 32 (Finite False (1 / 2)) (Finite False 1)
                                  (Finite False 2) 4) cells))) \<and>
      (\<forall>cell \<in> set cells. flt (fst cell) (Finite False 1) \<and> flt (snd cell) (Finite False 1))"
    by blast
  from run [THEN conjunct1] have "generateAnchors 32 [Finite False (1 / 2), Finite False 1]
       [Finite False 1, Finite False 1] 4 1 = Some (Inl IndexOutOfRange)"
    by simp
  moreover from run [THEN conjunct2, THEN conjunct1] have
    "generateAnchors 32 [Finite False (1 / 2), Finite False 1, Finite False 2, Finite False 7]
       [Finite False 1, Finite False 1] 4 1 =
     generateAnchors 32 [Finite False (1 / 2), Finite False 1, Finite False 2]
       [Finite False 1, Finite False 1] 4 1"
    .
  ultimately show ?thesis using returned last by (intro conjI)
qed

end
